theory Spec2Isabelle
  imports Main "HOL-Library.Word"
begin

unbundle bit_operations_syntax

section \<open>Data model of serializeToImage.py\<close>

text \<open>
  \<^verbatim>\<open>pxl = tuple[int, int, int]\<close> and \<^verbatim>\<open>position = tuple[int, int]\<close>.
  Python integers are unbounded, hence \<open>int\<close>.
\<close>

type_synonym pxl = "int \<times> int \<times> int"
type_synonym position = "int \<times> int"

definition I32MAX :: int where "I32MAX = 2147483647"
definition U32MAX :: int where "U32MAX = 4294967295"
definition I64MAX :: int where "I64MAX = 9223372036854775807"
definition U64MAX :: int where "U64MAX = 18446744073709551615"

text \<open>
  The module defines no exception class of its own. The exceptions that can leave its
  methods are Python's built-in ones: \<open>ZeroDivisionError\<close> from \<^verbatim>\<open>// self.w\<close> and
  \<^verbatim>\<open>% self.w\<close>, \<open>ValueError\<close> from \<^verbatim>\<open>chr\<close>, and whatever the surface or a user-defined
  object routine raises (\<open>IndexError\<close> is what a bounds-checking surface raises).
\<close>

datatype error = ZeroDivisionError | ValueError | IndexError | TypeError | AttributeError

text \<open>
  \<^verbatim>\<open>class ImgSurface(Protocol)\<close>: the surface is an external collaborator of which the
  module only fixes four method names. Its behaviour is a parameter: a surface state
  \<open>'s\<close> and the four operations. \<open>get_at\<close> is an observer; \<open>set_at\<close> returns the
  updated surface or raises leaving it as it was.
\<close>

record 's ImgSurface =
  get_at :: "'s \<Rightarrow> position \<Rightarrow> error + pxl"
  set_at :: "'s \<Rightarrow> position \<Rightarrow> pxl \<Rightarrow> error + 's"
  get_width :: "'s \<Rightarrow> int"
  get_height :: "'s \<Rightarrow> int"

text \<open>\<^verbatim>\<open>class ImgHandler\<close> with its four attributes.\<close>

record 's ImgHandler =
  surface :: 's
  next_byte :: int
  w :: int
  h :: int

text \<open>
  A method of the handler is an action, a function from the handler's state to the outcome and the
  state it leaves behind: an exception does not undo what was done before it was raised.
\<close>

type_synonym ('s, 'a) action = "'s ImgHandler \<Rightarrow> (error + 'a) \<times> 's ImgHandler"

text \<open>\<^verbatim>\<open>ImgHandler.__init__\<close>\<close>

definition init :: "'s ImgSurface \<Rightarrow> 's \<Rightarrow> 's ImgHandler" where
  "init ops surf =
     \<lparr>surface = surf, next_byte = 0, w = get_width ops surf, h = get_height ops surf\<rparr>"

text \<open>
  \<^verbatim>\<open>color[b_pos]\<close> and \<^verbatim>\<open>color[b_pos] = b\<close>, for \<open>b_pos\<close> a remainder modulo 3. The
  pixel that \<open>get_at\<close> returns is taken to be a mutable copy, as the colour of a
  pygame surface is (on a tuple the assignment would raise); a surface that refuses a
  channel value does so in \<open>set_at\<close>, which is handed the changed pixel.
\<close>

fun channel :: "pxl \<Rightarrow> int \<Rightarrow> int" where
  "channel (c0, c1, c2) b_pos = (if b_pos = 0 then c0 else if b_pos = 1 then c1 else c2)"

fun set_channel :: "pxl \<Rightarrow> int \<Rightarrow> int \<Rightarrow> pxl" where
  "set_channel (c0, c1, c2) b_pos b =
     (if b_pos = 0 then (b, c1, c2) else if b_pos = 1 then (c0, b, c2) else (c0, c1, b))"

section \<open>Writing\<close>

text \<open>
  \<^verbatim>\<open>
  def write_next_byte(self, b):
      b_pos = self.next_byte % 3
      y = self.next_byte // 3 // self.w
      x = self.next_byte // 3 % self.w
      color = self.surface.get_at((x, y))
      color[b_pos] = b
      self.surface.set_at((x, y), color)
      self.next_byte += 1
  \<close>
  Python's \<^verbatim>\<open>//\<close> and \<^verbatim>\<open>%\<close> round to minus infinity, as \<open>div\<close> and \<open>mod\<close> on \<open>int\<close> do;
  they raise on a zero divisor, where HOL returns 0.
\<close>

definition write_next_byte :: "'s ImgSurface \<Rightarrow> int \<Rightarrow> ('s, unit) action" where
  "write_next_byte ops b hdl =
     (if w hdl = 0 then (Inl ZeroDivisionError, hdl)
      else
        let b_pos = next_byte hdl mod 3;
            y = next_byte hdl div 3 div w hdl;
            x = next_byte hdl div 3 mod w hdl
        in case get_at ops (surface hdl) (x, y) of
             Inl e \<Rightarrow> (Inl e, hdl)
           | Inr color \<Rightarrow>
               (case set_at ops (surface hdl) (x, y) (set_channel color b_pos b) of
                  Inl e \<Rightarrow> (Inl e, hdl)
                | Inr surf \<Rightarrow>
                    (Inr (), hdl\<lparr>surface := surf, next_byte := next_byte hdl + 1\<rparr>)))"

text \<open>A \<^verbatim>\<open>for\<close> loop over a list whose body is an action: it stops at the first exception.\<close>

fun for_each :: "'a list \<Rightarrow> ('a \<Rightarrow> ('s, unit) action) \<Rightarrow> ('s, unit) action" where
  "for_each [] body hdl = (Inr (), hdl)"
| "for_each (x # xs) body hdl =
     (case body x hdl of
        (Inl e, hdl') \<Rightarrow> (Inl e, hdl')
      | (Inr _, hdl') \<Rightarrow> for_each xs body hdl')"

text \<open>
  \<^verbatim>\<open>
  for byte_pos in range(4):
      mask = 255
      byte = (val >> ((3-byte_pos) * 8)) & mask
      self.write_next_byte(byte)
  \<close>
  On Python's integers \<^verbatim>\<open>>>\<close> is the arithmetic shift (\<open>drop_bit\<close>) and \<^verbatim>\<open>&\<close> works on the
  infinite two's complement (\<open>AND\<close> on \<open>int\<close>).
\<close>

definition write_next_i32 :: "'s ImgSurface \<Rightarrow> int \<Rightarrow> ('s, unit) action" where
  "write_next_i32 ops val =
     for_each [0..<4] (\<lambda>byte_pos.
       let mask = 255;
           byte = (drop_bit ((3 - byte_pos) * 8) val) AND mask
       in write_next_byte ops byte)"

definition write_next_i64 :: "'s ImgSurface \<Rightarrow> int \<Rightarrow> ('s, unit) action" where
  "write_next_i64 ops val =
     for_each [0..<8] (\<lambda>byte_pos.
       let mask = 255;
           byte = (drop_bit ((7 - byte_pos) * 8) val) AND mask
       in write_next_byte ops byte)"

text \<open>
  A Python \<^verbatim>\<open>str\<close> is a sequence of code points, which go up to \<open>0x10FFFF\<close>: a list of
  naturals. \<^verbatim>\<open>ord(char)\<close> is the code point as an integer.
\<close>

type_synonym str = "nat list"

definition py_ord :: "nat \<Rightarrow> int" where
  "py_ord char = int char"

definition write_next_string :: "'s ImgSurface \<Rightarrow> str \<Rightarrow> ('s, unit) action" where
  "write_next_string ops val hdl =
     (case write_next_i64 ops (int (length val)) hdl of
        (Inl e, hdl') \<Rightarrow> (Inl e, hdl')
      | (Inr _, hdl') \<Rightarrow>
          for_each val (\<lambda>char. let byte = py_ord char in write_next_byte ops byte) hdl')"

text \<open>
  \<^verbatim>\<open>class ImgSerializable(Protocol)\<close>: the two routines of user-defined objects are
  parameters too, \<open>'o\<close> the objects and \<open>'c\<close> their classes.
\<close>

record ('s, 'o, 'c) ImgSerializable =
  img_serialize :: "'o \<Rightarrow> ('s, unit) action"
  img_deserialize :: "'c \<Rightarrow> ('s, 'o) action"

definition write_next_object :: "('s, 'o, 'c) ImgSerializable \<Rightarrow> 'o \<Rightarrow> ('s, unit) action" where
  "write_next_object proto cls hdl = img_serialize proto cls hdl"

text \<open>The values \<^verbatim>\<open>write_next\<close> tells apart with \<^verbatim>\<open>isinstance\<close>.\<close>

datatype 'o pyval = PyInt int | PyStr str | PyList "'o pyval list" | PyObj 'o

text \<open>
  \<^verbatim>\<open>write_next\<close> and \<^verbatim>\<open>write_next_list\<close> call each other; \<open>write_items\<close> is the loop
  \<^verbatim>\<open>for item in val: self.write_next(item)\<close>.
\<close>

fun write_next :: "'s ImgSurface \<Rightarrow> ('s, 'o, 'c) ImgSerializable \<Rightarrow> 'o pyval \<Rightarrow> ('s, unit) action"
  and write_next_list :: "'s ImgSurface \<Rightarrow> ('s, 'o, 'c) ImgSerializable \<Rightarrow> 'o pyval list \<Rightarrow> ('s, unit) action"
  and write_items :: "'s ImgSurface \<Rightarrow> ('s, 'o, 'c) ImgSerializable \<Rightarrow> 'o pyval list \<Rightarrow> ('s, unit) action"
where
  "write_next ops proto (PyInt val) hdl = write_next_i64 ops val hdl"
| "write_next ops proto (PyStr val) hdl = write_next_string ops val hdl"
| "write_next ops proto (PyList val) hdl = write_next_list ops proto val hdl"
| "write_next ops proto (PyObj val) hdl = write_next_object proto val hdl"
| "write_next_list ops proto val hdl =
     (case write_next_i64 ops (int (length val)) hdl of
        (Inl e, hdl') \<Rightarrow> (Inl e, hdl')
      | (Inr _, hdl') \<Rightarrow> write_items ops proto val hdl')"
| "write_items ops proto [] hdl = (Inr (), hdl)"
| "write_items ops proto (item # rest) hdl =
     (case write_next ops proto item hdl of
        (Inl e, hdl') \<Rightarrow> (Inl e, hdl')
      | (Inr _, hdl') \<Rightarrow> write_items ops proto rest hdl')"

section \<open>Reading\<close>

text \<open>
  \<^verbatim>\<open>
  def read_next_byte(self):
      b_pos = self.next_byte % 3
      y = self.next_byte // 3 // self.w
      x = self.next_byte // 3 % self.w
      color = self.surface.get_at((x, y))
      self.next_byte += 1
      return color[b_pos]
  \<close>
\<close>

definition read_next_byte :: "'s ImgSurface \<Rightarrow> ('s, int) action" where
  "read_next_byte ops hdl =
     (if w hdl = 0 then (Inl ZeroDivisionError, hdl)
      else
        let b_pos = next_byte hdl mod 3;
            y = next_byte hdl div 3 div w hdl;
            x = next_byte hdl div 3 mod w hdl
        in case get_at ops (surface hdl) (x, y) of
             Inl e \<Rightarrow> (Inl e, hdl)
           | Inr color \<Rightarrow> (Inr (channel color b_pos), hdl\<lparr>next_byte := next_byte hdl + 1\<rparr>))"

text \<open>
  \<^verbatim>\<open>read_next_bytes(size)\<close> is a generator, always consumed by a \<^verbatim>\<open>for\<close> loop that
  updates an accumulator: \<open>read_next_bytes ops n body output\<close> is that loop, the
  bytes read one at a time between the runs of the body. \<^verbatim>\<open>range(size)\<close> is empty for
  a negative size, so the callers pass \<open>nat sz\<close> for the size \<open>sz\<close> they read.
\<close>

fun read_next_bytes ::
  "'s ImgSurface \<Rightarrow> nat \<Rightarrow> ('a \<Rightarrow> int \<Rightarrow> error + 'a) \<Rightarrow> 'a \<Rightarrow> ('s, 'a) action" where
  "read_next_bytes ops 0 body output hdl = (Inr output, hdl)"
| "read_next_bytes ops (Suc n) body output hdl =
     (case read_next_byte ops hdl of
        (Inl e, hdl') \<Rightarrow> (Inl e, hdl')
      | (Inr byte, hdl') \<Rightarrow>
          (case body output byte of
             Inl e \<Rightarrow> (Inl e, hdl')
           | Inr output' \<Rightarrow> read_next_bytes ops n body output' hdl'))"

text \<open>
  \<^verbatim>\<open>
  output = 0
  for byte in self.read_next_bytes(4):
      output = output << 8
      output += byte
  return output - ((output >= I32MAX) * (U32MAX + 1))
  \<close>
  A Python \<^verbatim>\<open>bool\<close> multiplies as 0 or 1.
\<close>

definition read_next_i32 :: "'s ImgSurface \<Rightarrow> ('s, int) action" where
  "read_next_i32 ops hdl =
     (case read_next_bytes ops 4 (\<lambda>output byte. Inr (push_bit 8 output + byte)) 0 hdl of
        (Inl e, hdl') \<Rightarrow> (Inl e, hdl')
      | (Inr output, hdl') \<Rightarrow>
          (Inr (output - (if output \<ge> I32MAX then 1 else 0) * (U32MAX + 1)), hdl'))"

definition read_next_i64 :: "'s ImgSurface \<Rightarrow> ('s, int) action" where
  "read_next_i64 ops hdl =
     (case read_next_bytes ops 8 (\<lambda>output byte. Inr (push_bit 8 output + byte)) 0 hdl of
        (Inl e, hdl') \<Rightarrow> (Inl e, hdl')
      | (Inr output, hdl') \<Rightarrow>
          (Inr (output - (if output \<ge> I64MAX then 1 else 0) * (U64MAX + 1)), hdl'))"

text \<open>\<^verbatim>\<open>chr(i)\<close> raises \<open>ValueError\<close> unless \<open>0 <= i <= 0x10FFFF\<close>.\<close>

definition py_chr :: "int \<Rightarrow> error + nat" where
  "py_chr i = (if 0 \<le> i \<and> i < 1114112 then Inr (nat i) else Inl ValueError)"

definition read_next_string :: "'s ImgSurface \<Rightarrow> ('s, str) action" where
  "read_next_string ops hdl =
     (case read_next_i64 ops hdl of
        (Inl e, hdl') \<Rightarrow> (Inl e, hdl')
      | (Inr sz, hdl') \<Rightarrow>
          read_next_bytes ops (nat sz)
            (\<lambda>output ord. case py_chr ord of Inl e \<Rightarrow> Inl e | Inr c \<Rightarrow> Inr (output @ [c]))
            [] hdl')"

definition read_next_object :: "('s, 'o, 'c) ImgSerializable \<Rightarrow> 'c \<Rightarrow> ('s, 'o) action" where
  "read_next_object proto cls hdl = img_deserialize proto cls hdl"

text \<open>
  The declared types \<^verbatim>\<open>read_next\<close> tells apart: \<^verbatim>\<open>int\<close>, \<^verbatim>\<open>str\<close>, a \<^verbatim>\<open>GenericAlias\<close>
  (of which only \<^verbatim>\<open>__args__[0]\<close> is read) and anything else, taken for a class.
\<close>

datatype 'c pytype = TInt | TStr | GenericAlias "'c pytype" | TClass 'c

text \<open>
  \<^verbatim>\<open>read_next\<close> and \<^verbatim>\<open>read_next_list\<close> call each other; \<open>read_items\<close> is the loop
  \<^verbatim>\<open>for _ in range(size): item = self.read_next(inner_typ); output.append(item)\<close>.
\<close>

function read_next :: "'s ImgSurface \<Rightarrow> ('s, 'o, 'c) ImgSerializable \<Rightarrow> 'c pytype \<Rightarrow> ('s, 'o pyval) action"
  and read_next_list :: "'s ImgSurface \<Rightarrow> ('s, 'o, 'c) ImgSerializable \<Rightarrow> 'c pytype \<Rightarrow> ('s, 'o pyval list) action"
  and read_items :: "'s ImgSurface \<Rightarrow> ('s, 'o, 'c) ImgSerializable \<Rightarrow> 'c pytype \<Rightarrow> nat \<Rightarrow> 'o pyval list \<Rightarrow> ('s, 'o pyval list) action"
where
  "read_next ops proto TInt hdl =
     (case read_next_i64 ops hdl of
        (Inl e, hdl') \<Rightarrow> (Inl e, hdl')
      | (Inr val, hdl') \<Rightarrow> (Inr (PyInt val), hdl'))"
| "read_next ops proto TStr hdl =
     (case read_next_string ops hdl of
        (Inl e, hdl') \<Rightarrow> (Inl e, hdl')
      | (Inr val, hdl') \<Rightarrow> (Inr (PyStr val), hdl'))"
| "read_next ops proto (GenericAlias inner_typ) hdl =
     (case read_next_list ops proto inner_typ hdl of
        (Inl e, hdl') \<Rightarrow> (Inl e, hdl')
      | (Inr val, hdl') \<Rightarrow> (Inr (PyList val), hdl'))"
| "read_next ops proto (TClass cls) hdl =
     (case read_next_object proto cls hdl of
        (Inl e, hdl') \<Rightarrow> (Inl e, hdl')
      | (Inr val, hdl') \<Rightarrow> (Inr (PyObj val), hdl'))"
| "read_next_list ops proto inner_typ hdl =
     (case read_next_i64 ops hdl of
        (Inl e, hdl') \<Rightarrow> (Inl e, hdl')
      | (Inr sz, hdl') \<Rightarrow> read_items ops proto inner_typ (nat sz) [] hdl')"
| "read_items ops proto inner_typ 0 output hdl = (Inr output, hdl)"
| "read_items ops proto inner_typ (Suc n) output hdl =
     (case read_next ops proto inner_typ hdl of
        (Inl e, hdl') \<Rightarrow> (Inl e, hdl')
      | (Inr item, hdl') \<Rightarrow> read_items ops proto inner_typ n (output @ [item]) hdl')"
  by pat_completeness auto
termination
  by (relation "measures
        [\<lambda>x. case x of
                Inl (_, _, typ, _) \<Rightarrow> 3 * size typ
              | Inr (Inl (_, _, typ, _)) \<Rightarrow> 3 * size typ + 2
              | Inr (Inr (_, _, typ, _, _, _)) \<Rightarrow> 3 * size typ + 1,
         \<lambda>x. case x of
                Inl _ \<Rightarrow> 0
              | Inr (Inl _) \<Rightarrow> 0
              | Inr (Inr (_, _, _, n, _, _)) \<Rightarrow> n]") auto


section \<open>Surfaces\<close>

text \<open>
  What the specification calls a surface: a grid of pixels whose channels are 8-bit
  values. \<open>surface_laws\<close> says so for the parameter: a pixel read has three bytes, and a
  pixel of three bytes that was stored is the pixel read back there, the other positions
  reading as before.
\<close>

definition is_byte :: "int \<Rightarrow> bool" where
  "is_byte b \<longleftrightarrow> 0 \<le> b \<and> b < 256"

fun byte_pxl :: "pxl \<Rightarrow> bool" where
  "byte_pxl (c0, c1, c2) \<longleftrightarrow> is_byte c0 \<and> is_byte c1 \<and> is_byte c2"

definition surface_laws :: "'s ImgSurface \<Rightarrow> bool" where
  "surface_laws ops \<longleftrightarrow>
     (\<forall>s p c. get_at ops s p = Inr c \<longrightarrow> byte_pxl c) \<and>
     (\<forall>s p c s'. byte_pxl c \<longrightarrow> set_at ops s p c = Inr s' \<longrightarrow>
        get_at ops s' p = Inr c \<and> (\<forall>q. q \<noteq> p \<longrightarrow> get_at ops s' q = get_at ops s q))"

text \<open>
  A surface that checks bounds: inside \<open>[0,W) \<times> [0,H)\<close> a pixel can be read and a pixel of
  bytes stored, which keeps the dimensions; outside, \<open>get_at\<close> raises.
\<close>

definition inside :: "'s ImgSurface \<Rightarrow> 's \<Rightarrow> position \<Rightarrow> bool" where
  "inside ops s p \<longleftrightarrow>
     0 \<le> fst p \<and> fst p < get_width ops s \<and> 0 \<le> snd p \<and> snd p < get_height ops s"

definition bounds_checked :: "'s ImgSurface \<Rightarrow> bool" where
  "bounds_checked ops \<longleftrightarrow>
     (\<forall>s p. inside ops s p \<longrightarrow>
        (\<exists>c. get_at ops s p = Inr c) \<and>
        (\<forall>c. byte_pxl c \<longrightarrow>
           (\<exists>s'. set_at ops s p c = Inr s' \<and>
                 get_width ops s' = get_width ops s \<and> get_height ops s' = get_height ops s))) \<and>
     (\<forall>s p. \<not> inside ops s p \<longrightarrow> (\<exists>e. get_at ops s p = Inl e))"

text \<open>
  A concrete surface with 8-bit channels for the examples: \<open>grid_ops\<close> checks the bounds
  and raises \<open>IndexError\<close> outside; \<open>unchecked_ops\<close> is the same storage without the
  check (a surface backed by a dictionary with a default pixel behaves so). Storing a
  channel value keeps its low 8 bits.
\<close>

type_synonym pxl8 = "8 word \<times> 8 word \<times> 8 word"

record grid =
  gw :: int
  gh :: int
  pix :: "position \<Rightarrow> pxl8"

fun pxl_of :: "pxl8 \<Rightarrow> pxl" where
  "pxl_of (c0, c1, c2) = (uint c0, uint c1, uint c2)"

fun pxl8_of :: "pxl \<Rightarrow> pxl8" where
  "pxl8_of (c0, c1, c2) = (word_of_int c0, word_of_int c1, word_of_int c2)"

definition in_grid :: "grid \<Rightarrow> position \<Rightarrow> bool" where
  "in_grid g p \<longleftrightarrow> 0 \<le> fst p \<and> fst p < gw g \<and> 0 \<le> snd p \<and> snd p < gh g"

definition grid_get_at :: "grid \<Rightarrow> position \<Rightarrow> error + pxl" where
  "grid_get_at g p = (if in_grid g p then Inr (pxl_of (pix g p)) else Inl IndexError)"

definition grid_set_at :: "grid \<Rightarrow> position \<Rightarrow> pxl \<Rightarrow> error + grid" where
  "grid_set_at g p c =
     (if in_grid g p then Inr (g\<lparr>pix := (pix g)(p := pxl8_of c)\<rparr>) else Inl IndexError)"

definition grid_ops :: "grid ImgSurface" where
  "grid_ops = \<lparr>get_at = grid_get_at, set_at = grid_set_at, get_width = gw, get_height = gh\<rparr>"

definition unchecked_ops :: "grid ImgSurface" where
  "unchecked_ops =
     \<lparr>get_at = (\<lambda>g p. Inr (pxl_of (pix g p))),
      set_at = (\<lambda>g p c. Inr (g\<lparr>pix := (pix g)(p := pxl8_of c)\<rparr>)),
      get_width = gw, get_height = gh\<rparr>"



definition blank :: "int \<Rightarrow> int \<Rightarrow> grid" where
  "blank W H = \<lparr>gw = W, gh = H, pix = (\<lambda>_. (0, 0, 0))\<rparr>"

section \<open>The byte stream on the surface\<close>

text \<open>
  \<open>write_bytes\<close> is a run of calls of \<^verbatim>\<open>write_next_byte\<close>, one for each byte of a list.
  \<open>stored ops W s n b\<close>: in the surface \<open>s\<close>, read at width \<open>W\<close>, the byte of index \<open>n\<close>
  is \<open>b\<close>.
\<close>

definition write_bytes :: "'s ImgSurface \<Rightarrow> int list \<Rightarrow> ('s, unit) action" where
  "write_bytes ops bs = for_each bs (write_next_byte ops)"

definition stored :: "'s ImgSurface \<Rightarrow> int \<Rightarrow> 's \<Rightarrow> int \<Rightarrow> int \<Rightarrow> bool" where
  "stored ops W s n b \<longleftrightarrow>
     (case get_at ops s (n div 3 mod W, n div 3 div W) of
        Inl e \<Rightarrow> False
      | Inr c \<Rightarrow> channel c (n mod 3) = b)"

definition stored_list :: "'s ImgSurface \<Rightarrow> int \<Rightarrow> 's \<Rightarrow> int \<Rightarrow> int list \<Rightarrow> bool" where
  "stored_list ops W s n bs \<longleftrightarrow> (\<forall>i < length bs. stored ops W s (n + int i) (bs ! i))"

text \<open>The wire format: big-endian fixed-width integers, length-prefixed strings and lists.\<close>

definition i32_bytes :: "int \<Rightarrow> int list" where
  "i32_bytes val = map (\<lambda>byte_pos. (drop_bit ((3 - byte_pos) * 8) val) AND 255) [0..<4]"

definition i64_bytes :: "int \<Rightarrow> int list" where
  "i64_bytes val = map (\<lambda>byte_pos. (drop_bit ((7 - byte_pos) * 8) val) AND 255) [0..<8]"

fun encode :: "('o \<Rightarrow> int list) \<Rightarrow> 'o pyval \<Rightarrow> int list" where
  "encode oe (PyInt val) = i64_bytes val"
| "encode oe (PyStr val) = i64_bytes (int (length val)) @ map py_ord val"
| "encode oe (PyList val) = i64_bytes (int (length val)) @ concat (map (encode oe) val)"
| "encode oe (PyObj val) = oe val"

text \<open>
  What the readers make of the bytes of an integer: the unsigned value of its low 32 or 64
  bits, from which \<^verbatim>\<open>(output >= I32MAX) * (U32MAX + 1)\<close> is subtracted.
\<close>

definition reinterpret_i32 :: "int \<Rightarrow> int" where
  "reinterpret_i32 val =
     (let output = take_bit 32 val
      in output - (if output \<ge> I32MAX then 1 else 0) * (U32MAX + 1))"

definition reinterpret_i64 :: "int \<Rightarrow> int" where
  "reinterpret_i64 val =
     (let output = take_bit 64 val
      in output - (if output \<ge> I64MAX then 1 else 0) * (U64MAX + 1))"

text \<open>
  \<open>writable okc val typ\<close>: the value has the shape of the declared type, its strings hold
  code points below 256 and its lengths are below \<open>I64MAX\<close>; which object belongs to
  which class is the parameter \<open>okc\<close>. \<open>reread val\<close> is the value with every integer
  as the reader reinterprets it. \<open>has_type\<close> asks in addition that every integer is
  one the reader returns unchanged.
\<close>

fun writable :: "('o \<Rightarrow> 'c \<Rightarrow> bool) \<Rightarrow> 'o pyval \<Rightarrow> 'c pytype \<Rightarrow> bool" where
  "writable okc (PyInt val) TInt \<longleftrightarrow> True"
| "writable okc (PyStr val) TStr \<longleftrightarrow>
     list_all (\<lambda>char. char < 256) val \<and> int (length val) < I64MAX"
| "writable okc (PyList val) (GenericAlias inner_typ) \<longleftrightarrow>
     list_all (\<lambda>item. writable okc item inner_typ) val \<and> int (length val) < I64MAX"
| "writable okc (PyObj val) (TClass cls) \<longleftrightarrow> okc val cls"
| "writable okc _ _ \<longleftrightarrow> False"

fun reread :: "'o pyval \<Rightarrow> 'o pyval" where
  "reread (PyInt val) = PyInt (reinterpret_i64 val)"
| "reread (PyStr val) = PyStr val"
| "reread (PyList val) = PyList (map reread val)"
| "reread (PyObj val) = PyObj val"

fun has_type :: "('o \<Rightarrow> 'c \<Rightarrow> bool) \<Rightarrow> 'o pyval \<Rightarrow> 'c pytype \<Rightarrow> bool" where
  "has_type okc (PyInt val) TInt \<longleftrightarrow> - I64MAX - 1 \<le> val \<and> val < I64MAX"
| "has_type okc (PyStr val) TStr \<longleftrightarrow>
     list_all (\<lambda>char. char < 256) val \<and> int (length val) < I64MAX"
| "has_type okc (PyList val) (GenericAlias inner_typ) \<longleftrightarrow>
     list_all (\<lambda>item. has_type okc item inner_typ) val \<and> int (length val) < I64MAX"
| "has_type okc (PyObj val) (TClass cls) \<longleftrightarrow> okc val cls"
| "has_type okc _ _ \<longleftrightarrow> False"

text \<open>The dimensions a handler cached at construction are those of its surface.\<close>

definition attached :: "'s ImgSurface \<Rightarrow> 's ImgHandler \<Rightarrow> bool" where
  "attached ops hdl \<longleftrightarrow>
     w hdl = get_width ops (surface hdl) \<and> h hdl = get_height ops (surface hdl)"

text \<open>
  What the module expects of the routines of an object: \<^verbatim>\<open>img_serialize\<close> issues a
  sequence of byte writes through the handler (\<open>oe\<close> names the bytes), and
  \<^verbatim>\<open>img_deserialize\<close> of the object's class, started where these bytes are stored,
  returns the object and leaves the cursor behind them.
\<close>

definition object_codec ::
  "'s ImgSurface \<Rightarrow> ('s, 'o, 'c) ImgSerializable \<Rightarrow> ('o \<Rightarrow> int list) \<Rightarrow> ('o \<Rightarrow> 'c \<Rightarrow> bool) \<Rightarrow> bool" where
  "object_codec ops proto oe okc \<longleftrightarrow>
     (\<forall>ob hdl. img_serialize proto ob hdl = write_bytes ops (oe ob) hdl) \<and>
     (\<forall>ob cls. okc ob cls \<longrightarrow> list_all is_byte (oe ob)) \<and>
     (\<forall>ob cls hdl. okc ob cls \<longrightarrow> w hdl \<noteq> 0 \<longrightarrow>
        stored_list ops (w hdl) (surface hdl) (next_byte hdl) (oe ob) \<longrightarrow>
        img_deserialize proto cls hdl =
          (Inr ob, hdl\<lparr>next_byte := next_byte hdl + int (length (oe ob))\<rparr>))"

section \<open>The example class of the module\<close>

text \<open>
  \<^verbatim>\<open>class Player_Example\<close> of the module's demonstration, with its attributes \<open>x\<close>, \<open>y\<close>,
  \<open>health\<close> and \<open>name\<close> in this order.
  \<^verbatim>\<open>
  def img_serialize(self, handler):
      handler.write_next_i32(self.x).write_next_i32(self.y)
          .write_next_i32(self.health).write_next_string(self.name)
  def img_deserialize(handle):
      inst = Player_Example()
      inst.x = handle.read_next_i32()
      inst.y = handle.read_next_i32()
      inst.health = handle.read_next_i32()
      inst.name = handle.read_next_string()
      return inst
  \<close>
\<close>

datatype Player_Example = Player_Example int int int str

fun player_serialize :: "'s ImgSurface \<Rightarrow> Player_Example \<Rightarrow> ('s, unit) action" where
  "player_serialize ops (Player_Example x y health name) hdl =
     (case write_next_i32 ops x hdl of
        (Inl e, hdl1) \<Rightarrow> (Inl e, hdl1)
      | (Inr _, hdl1) \<Rightarrow>
     (case write_next_i32 ops y hdl1 of
        (Inl e, hdl2) \<Rightarrow> (Inl e, hdl2)
      | (Inr _, hdl2) \<Rightarrow>
     (case write_next_i32 ops health hdl2 of
        (Inl e, hdl3) \<Rightarrow> (Inl e, hdl3)
      | (Inr _, hdl3) \<Rightarrow> write_next_string ops name hdl3)))"

definition player_deserialize :: "'s ImgSurface \<Rightarrow> ('s, Player_Example) action" where
  "player_deserialize ops hdl =
     (case read_next_i32 ops hdl of
        (Inl e, hdl1) \<Rightarrow> (Inl e, hdl1)
      | (Inr x, hdl1) \<Rightarrow>
     (case read_next_i32 ops hdl1 of
        (Inl e, hdl2) \<Rightarrow> (Inl e, hdl2)
      | (Inr y, hdl2) \<Rightarrow>
     (case read_next_i32 ops hdl2 of
        (Inl e, hdl3) \<Rightarrow> (Inl e, hdl3)
      | (Inr health, hdl3) \<Rightarrow>
     (case read_next_string ops hdl3 of
        (Inl e, hdl4) \<Rightarrow> (Inl e, hdl4)
      | (Inr name, hdl4) \<Rightarrow> (Inr (Player_Example x y health name), hdl4)))))"

text \<open>The protocol with \<^verbatim>\<open>Player_Example\<close> as its only class.\<close>

definition player_proto :: "'s ImgSurface \<Rightarrow> ('s, Player_Example, unit) ImgSerializable" where
  "player_proto ops =
     \<lparr>img_serialize = player_serialize ops, img_deserialize = (\<lambda>cls. player_deserialize ops)\<rparr>"

text \<open>The bytes a player is written as, and the players whose attributes read back.\<close>

fun player_bytes :: "Player_Example \<Rightarrow> int list" where
  "player_bytes (Player_Example x y health name) =
     i32_bytes x @ i32_bytes y @ i32_bytes health @ i64_bytes (int (length name)) @ map py_ord name"

fun player_ok :: "Player_Example \<Rightarrow> unit \<Rightarrow> bool" where
  "player_ok (Player_Example x y health name) cls \<longleftrightarrow>
     - I32MAX - 1 \<le> x \<and> x < I32MAX \<and> - I32MAX - 1 \<le> y \<and> y < I32MAX \<and>
     - I32MAX - 1 \<le> health \<and> health < I32MAX \<and>
     list_all (\<lambda>char. char < 256) name \<and> int (length name) < I64MAX"

section \<open>Frame conditions\<close>

text \<open>
  An action that changes nothing of the handler but its cursor, whatever its outcome: the
  surface, and so every pixel, and the cached dimensions stay as they were.
\<close>

definition keeps_surface :: "('s, 'a) action \<Rightarrow> bool" where
  "keeps_surface m \<longleftrightarrow>
     (\<forall>hdl r hdl'. m hdl = (r, hdl') \<longrightarrow>
        surface hdl' = surface hdl \<and> w hdl' = w hdl \<and> h hdl' = h hdl)"

text \<open>A Python string literal of Latin-1 characters, as its code points.\<close>

definition str_of :: "string \<Rightarrow> str" where
  "str_of s = map of_char s"

section \<open>Pixels and byte indices\<close>

lemma channel_set_channel_same:
  "0 \<le> i \<Longrightarrow> i < 3 \<Longrightarrow> channel (set_channel c i b) i = b"
  by (cases c) auto

lemma channel_set_channel_other:
  "i \<noteq> j \<Longrightarrow> 0 \<le> i \<Longrightarrow> i < 3 \<Longrightarrow> 0 \<le> j \<Longrightarrow> j < 3 \<Longrightarrow>
   channel (set_channel c i b) j = channel c j"
  by (cases c) auto

lemma byte_pxl_set_channel:
  "byte_pxl c \<Longrightarrow> is_byte b \<Longrightarrow> byte_pxl (set_channel c i b)"
  by (cases c) auto

lemma byte_pxl_channel:
  "byte_pxl c \<Longrightarrow> is_byte (channel c i)"
  by (cases c) auto

lemma pixel_index_inj:
  fixes k k' W :: int
  assumes "k mod W = k' mod W" and "k div W = k' div W"
  shows "k = k'"
proof -
  have "k = W * (k div W) + k mod W" by simp
  also have "\<dots> = W * (k' div W) + k' mod W" using assms by simp
  also have "\<dots> = k'" by simp
  finally show ?thesis .
qed

lemma byte_index_cases:
  fixes m n W :: int
  assumes "m \<noteq> n"
  shows "(m div 3 mod W, m div 3 div W) \<noteq> (n div 3 mod W, n div 3 div W) \<or>
         (m div 3 = n div 3 \<and> m mod 3 \<noteq> n mod 3)"
proof (cases "m div 3 = n div 3")
  case True
  have "m mod 3 \<noteq> n mod 3"
  proof
    assume "m mod 3 = n mod 3"
    with True have "m = n" by (rule_tac pixel_index_inj[of m 3 n]) auto
    with assms show False by simp
  qed
  with True show ?thesis by simp
next
  case False
  then show ?thesis using pixel_index_inj[of "m div 3" W "n div 3"] by auto
qed

lemma write_next_byte_Inr:
  assumes "write_next_byte ops b hdl = (Inr u, hdl')"
  shows "\<exists>color surf.
           get_at ops (surface hdl) (next_byte hdl div 3 mod w hdl, next_byte hdl div 3 div w hdl)
             = Inr color \<and>
           set_at ops (surface hdl) (next_byte hdl div 3 mod w hdl, next_byte hdl div 3 div w hdl)
             (set_channel color (next_byte hdl mod 3) b) = Inr surf \<and>
           hdl' = hdl\<lparr>surface := surf, next_byte := next_byte hdl + 1\<rparr>"
  using assms
  by (auto simp: write_next_byte_def Let_def split: if_splits sum.splits)

lemma write_next_byte_Inl:
  assumes "write_next_byte ops b hdl = (Inl e, hdl')"
  shows "hdl' = hdl"
  using assms
  by (auto simp: write_next_byte_def Let_def split: if_splits sum.splits)

lemma surface_laws_get:
  "surface_laws ops \<Longrightarrow> get_at ops s p = Inr c \<Longrightarrow> byte_pxl c"
  unfolding surface_laws_def by blast

lemma surface_laws_set:
  assumes "surface_laws ops" and "byte_pxl c" and "set_at ops s p c = Inr s'"
  shows "get_at ops s' p = Inr c" and "\<And>q. q \<noteq> p \<Longrightarrow> get_at ops s' q = get_at ops s q"
  using assms unfolding surface_laws_def by blast+

lemma write_next_byte_stored:
  assumes laws: "surface_laws ops" and b: "is_byte b"
    and wr: "write_next_byte ops b hdl = (Inr u, hdl')"
  shows "stored ops (w hdl) (surface hdl') (next_byte hdl) b"
    and "\<And>m. m \<noteq> next_byte hdl \<Longrightarrow>
           stored ops (w hdl) (surface hdl') m = stored ops (w hdl) (surface hdl) m"
proof -
  let ?p = "(next_byte hdl div 3 mod w hdl, next_byte hdl div 3 div w hdl)"
  from write_next_byte_Inr[OF wr] obtain color surf where
    g: "get_at ops (surface hdl) ?p = Inr color" and
    s: "set_at ops (surface hdl) ?p (set_channel color (next_byte hdl mod 3) b) = Inr surf" and
    h: "hdl' = hdl\<lparr>surface := surf, next_byte := next_byte hdl + 1\<rparr>"
    by blast
  from laws g have bc: "byte_pxl color" by (rule surface_laws_get)
  then have bc': "byte_pxl (set_channel color (next_byte hdl mod 3) b)"
    using b by (rule byte_pxl_set_channel)
  note g' = surface_laws_set(1)[OF laws bc' s]
  note fr = surface_laws_set(2)[OF laws bc' s]
  show "stored ops (w hdl) (surface hdl') (next_byte hdl) b"
    using g' h by (simp add: stored_def channel_set_channel_same)
  fix m assume "m \<noteq> next_byte hdl"
  from byte_index_cases[OF this, of "w hdl"]
  show "stored ops (w hdl) (surface hdl') m = stored ops (w hdl) (surface hdl) m"
  proof
    assume "(m div 3 mod w hdl, m div 3 div w hdl) \<noteq> ?p"
    from fr[OF this] show ?thesis using h by (simp add: stored_def fun_eq_iff)
  next
    assume a: "m div 3 = next_byte hdl div 3 \<and> m mod 3 \<noteq> next_byte hdl mod 3"
    then have "channel (set_channel color (next_byte hdl mod 3) b) (m mod 3) = channel color (m mod 3)"
      by (intro channel_set_channel_other) auto
    then show ?thesis using a g g' h by (simp add: stored_def fun_eq_iff)
  qed
qed

section \<open>Runs of byte writes\<close>

lemma for_each_append:
  "for_each (xs @ ys) body hdl =
     (case for_each xs body hdl of
        (Inl e, hdl') \<Rightarrow> (Inl e, hdl')
      | (Inr _, hdl') \<Rightarrow> for_each ys body hdl')"
  by (induction xs arbitrary: hdl) (auto split: prod.splits sum.splits)

lemma for_each_map:
  "for_each (map f xs) body hdl = for_each xs (\<lambda>x. body (f x)) hdl"
  by (induction xs arbitrary: hdl) (auto split: prod.splits sum.splits)

lemma write_next_i32_bytes: "write_next_i32 ops val hdl = write_bytes ops (i32_bytes val) hdl"
  by (simp add: write_next_i32_def write_bytes_def i32_bytes_def for_each_map Let_def)

lemma write_next_i64_bytes: "write_next_i64 ops val hdl = write_bytes ops (i64_bytes val) hdl"
  by (simp add: write_next_i64_def write_bytes_def i64_bytes_def for_each_map Let_def)

lemma write_bytes_append:
  "write_bytes ops (xs @ ys) hdl =
     (case write_bytes ops xs hdl of
        (Inl e, hdl') \<Rightarrow> (Inl e, hdl')
      | (Inr _, hdl') \<Rightarrow> write_bytes ops ys hdl')"
  unfolding write_bytes_def by (rule for_each_append)

lemma write_bytes_Nil: "write_bytes ops [] hdl = (Inr (), hdl)"
  by (simp add: write_bytes_def)

lemma write_bytes_Cons:
  "write_bytes ops (b # bs) hdl =
     (case write_next_byte ops b hdl of
        (Inl e, hdl') \<Rightarrow> (Inl e, hdl')
      | (Inr _, hdl') \<Rightarrow> write_bytes ops bs hdl')"
  unfolding write_bytes_def by simp

lemma write_next_string_bytes:
  "write_next_string ops val hdl =
     write_bytes ops (i64_bytes (int (length val)) @ map py_ord val) hdl"
  unfolding write_next_string_def write_next_i64_bytes write_bytes_def for_each_append
    for_each_map Let_def ..

lemma stored_list_Nil: "stored_list ops W s n []"
  by (simp add: stored_list_def)

lemma stored_list_Cons:
  "stored_list ops W s n (b # bs) \<longleftrightarrow> stored ops W s n b \<and> stored_list ops W s (n + 1) bs"
proof -
  have "(\<forall>i < Suc (length bs). stored ops W s (n + int i) ((b # bs) ! i)) \<longleftrightarrow>
        stored ops W s n b \<and> (\<forall>i < length bs. stored ops W s (n + int (Suc i)) (bs ! i))"
    by (auto simp: less_Suc_eq_0_disj)
  then show ?thesis by (simp add: stored_list_def add.assoc)
qed

lemma stored_list_append:
  "stored_list ops W s n (xs @ ys) \<longleftrightarrow>
     stored_list ops W s n xs \<and> stored_list ops W s (n + int (length xs)) ys"
  by (induction xs arbitrary: n) (auto simp: stored_list_Nil stored_list_Cons add.assoc)

lemma write_next_byte_fields:
  assumes "write_next_byte ops b hdl = (r, hdl')"
  shows "w hdl' = w hdl" and "h hdl' = h hdl"
  using assms
  by (auto simp: write_next_byte_def Let_def split: if_splits sum.splits)

lemma write_next_byte_cursor:
  assumes "write_next_byte ops b hdl = (Inr u, hdl')"
  shows "next_byte hdl' = next_byte hdl + 1"
  using write_next_byte_Inr[OF assms] by auto

lemma write_bytes_fields:
  assumes "write_bytes ops bs hdl = (r, hdl')"
  shows "w hdl' = w hdl \<and> h hdl' = h hdl"
  using assms
proof (induction bs arbitrary: hdl)
  case Nil
  then show ?case by (simp add: write_bytes_Nil)
next
  case (Cons b bs)
  obtain r1 h1 where 1: "write_next_byte ops b hdl = (r1, h1)" by (cases "write_next_byte ops b hdl")
  note f = write_next_byte_fields[OF 1]
  show ?case
  proof (cases r1)
    case (Inl e)
    with Cons.prems 1 f show ?thesis by (simp add: write_bytes_Cons)
  next
    case (Inr u)
    with Cons.prems 1 have "write_bytes ops bs h1 = (r, hdl')" by (simp add: write_bytes_Cons)
    from Cons.IH[OF this] f show ?thesis by simp
  qed
qed

lemma write_bytes_stored:
  assumes laws: "surface_laws ops"
    and "list_all is_byte bs"
    and "write_bytes ops bs hdl = (Inr u, hdl')"
  shows "next_byte hdl' = next_byte hdl + int (length bs) \<and>
         stored_list ops (w hdl) (surface hdl') (next_byte hdl) bs \<and>
         (\<forall>m. m < next_byte hdl \<or> next_byte hdl + int (length bs) \<le> m \<longrightarrow>
              stored ops (w hdl) (surface hdl') m = stored ops (w hdl) (surface hdl) m)"
  using assms(2,3)
proof (induction bs arbitrary: hdl)
  case Nil
  then show ?case by (simp add: write_bytes_Nil stored_list_Nil)
next
  case (Cons b bs)
  from Cons.prems(2) obtain u1 h1 where
    1: "write_next_byte ops b hdl = (Inr u1, h1)" and 2: "write_bytes ops bs h1 = (Inr u, hdl')"
    by (auto simp: write_bytes_Cons split: prod.splits sum.splits)
  from Cons.prems(1) have b: "is_byte b" and bs: "list_all is_byte bs" by simp_all
  note c1 = write_next_byte_cursor[OF 1]
  note w1 = write_next_byte_fields(1)[OF 1]
  note st = write_next_byte_stored[OF laws b 1]
  from Cons.IH[OF bs 2] have
    ih1: "next_byte hdl' = next_byte h1 + int (length bs)" and
    ih2: "stored_list ops (w h1) (surface hdl') (next_byte h1) bs" and
    ih3: "\<And>m. m < next_byte h1 \<or> next_byte h1 + int (length bs) \<le> m \<Longrightarrow>
              stored ops (w h1) (surface hdl') m = stored ops (w h1) (surface h1) m"
    by blast+
  have "stored ops (w hdl) (surface hdl') (next_byte hdl) b"
    using ih3[of "next_byte hdl"] st(1) c1 w1 by simp
  moreover have "\<And>m. m < next_byte hdl \<or> next_byte hdl + int (length (b # bs)) \<le> m \<Longrightarrow>
              stored ops (w hdl) (surface hdl') m = stored ops (w hdl) (surface hdl) m"
  proof -
    fix m assume m: "m < next_byte hdl \<or> next_byte hdl + int (length (b # bs)) \<le> m"
    then have "stored ops (w h1) (surface hdl') m = stored ops (w h1) (surface h1) m"
      using c1 by (intro ih3) auto
    moreover have "stored ops (w hdl) (surface h1) m = stored ops (w hdl) (surface hdl) m"
      using m by (intro st(2)) auto
    ultimately show "stored ops (w hdl) (surface hdl') m = stored ops (w hdl) (surface hdl) m"
      using w1 by simp
  qed
  ultimately show ?case
    using ih1 ih2 c1 w1 by (simp add: stored_list_Cons)
qed

lemma write_bytes_width:
  assumes "write_bytes ops (b # bs) hdl = (Inr u, hdl')"
  shows "w hdl \<noteq> 0"
  using assms
  by (auto simp: write_bytes_Cons write_next_byte_def split: prod.splits sum.splits if_splits)

section \<open>Big-endian bytes\<close>

lemma byte_step:
  fixes u :: int
  shows "push_bit 8 (take_bit m (drop_bit 8 u)) + (u AND 255) = take_bit (m + 8) u"
proof -
  have "u AND 255 = take_bit 8 u"
    by (simp add: take_bit_eq_mask mask_eq_exp_minus_1)
  moreover have "2 ^ 8 * (u div 2 ^ 8 mod 2 ^ m) + u mod 2 ^ 8 = u mod (2 ^ 8 * 2 ^ m)"
    by (rule zmod_zmult2_eq[symmetric]) simp
  ultimately show ?thesis
    by (simp add: take_bit_eq_mod push_bit_eq_mult drop_bit_eq_div power_add mult.commute)
qed

lemma foldl_i64_bytes:
  "foldl (\<lambda>output byte. push_bit 8 output + byte) 0 (i64_bytes val) = take_bit 64 val"
proof -
  have l: "i64_bytes val =
    [drop_bit 56 val AND 255, drop_bit 48 val AND 255, drop_bit 40 val AND 255,
     drop_bit 32 val AND 255, drop_bit 24 val AND 255, drop_bit 16 val AND 255,
     drop_bit 8 val AND 255, val AND 255]"
    by (simp add: i64_bytes_def upt_rec)
  have 1: "drop_bit 56 val AND 255 = take_bit 8 (drop_bit 56 val)"
    using byte_step[of 0 "drop_bit 56 val"] by simp
  have 2: "push_bit 8 (take_bit 8 (drop_bit 56 val)) + (drop_bit 48 val AND 255)
           = take_bit 16 (drop_bit 48 val)"
    using byte_step[of 8 "drop_bit 48 val"] by simp
  have 3: "push_bit 8 (take_bit 16 (drop_bit 48 val)) + (drop_bit 40 val AND 255)
           = take_bit 24 (drop_bit 40 val)"
    using byte_step[of 16 "drop_bit 40 val"] by simp
  have 4: "push_bit 8 (take_bit 24 (drop_bit 40 val)) + (drop_bit 32 val AND 255)
           = take_bit 32 (drop_bit 32 val)"
    using byte_step[of 24 "drop_bit 32 val"] by simp
  have 5: "push_bit 8 (take_bit 32 (drop_bit 32 val)) + (drop_bit 24 val AND 255)
           = take_bit 40 (drop_bit 24 val)"
    using byte_step[of 32 "drop_bit 24 val"] by simp
  have 6: "push_bit 8 (take_bit 40 (drop_bit 24 val)) + (drop_bit 16 val AND 255)
           = take_bit 48 (drop_bit 16 val)"
    using byte_step[of 40 "drop_bit 16 val"] by simp
  have 7: "push_bit 8 (take_bit 48 (drop_bit 16 val)) + (drop_bit 8 val AND 255)
           = take_bit 56 (drop_bit 8 val)"
    using byte_step[of 48 "drop_bit 8 val"] by simp
  have 8: "push_bit 8 (take_bit 56 (drop_bit 8 val)) + (val AND 255) = take_bit 64 val"
    using byte_step[of 56 val] by simp
  show ?thesis
    unfolding l by (simp only: foldl.simps push_bit_of_0 add_0 1 2 3 4 5 6 7 8)
qed

lemma foldl_i32_bytes:
  "foldl (\<lambda>output byte. push_bit 8 output + byte) 0 (i32_bytes val) = take_bit 32 val"
proof -
  have l: "i32_bytes val =
    [drop_bit 24 val AND 255, drop_bit 16 val AND 255, drop_bit 8 val AND 255, val AND 255]"
    by (simp add: i32_bytes_def upt_rec)
  have 1: "drop_bit 24 val AND 255 = take_bit 8 (drop_bit 24 val)"
    using byte_step[of 0 "drop_bit 24 val"] by simp
  have 2: "push_bit 8 (take_bit 8 (drop_bit 24 val)) + (drop_bit 16 val AND 255)
           = take_bit 16 (drop_bit 16 val)"
    using byte_step[of 8 "drop_bit 16 val"] by simp
  have 3: "push_bit 8 (take_bit 16 (drop_bit 16 val)) + (drop_bit 8 val AND 255)
           = take_bit 24 (drop_bit 8 val)"
    using byte_step[of 16 "drop_bit 8 val"] by simp
  have 4: "push_bit 8 (take_bit 24 (drop_bit 8 val)) + (val AND 255) = take_bit 32 val"
    using byte_step[of 24 val] by simp
  show ?thesis
    unfolding l by (simp only: foldl.simps push_bit_of_0 add_0 1 2 3 4)
qed

lemma is_byte_and_255: "is_byte (k AND 255)"
proof -
  have "k AND 255 = take_bit 8 k"
    using byte_step[of 0 k] by simp
  then show ?thesis by (simp add: is_byte_def take_bit_eq_mod)
qed

lemma i64_bytes_bytes: "list_all is_byte (i64_bytes val)"
  by (simp add: i64_bytes_def list_all_iff is_byte_and_255)

lemma i32_bytes_bytes: "list_all is_byte (i32_bytes val)"
  by (simp add: i32_bytes_def list_all_iff is_byte_and_255)

lemma length_i64_bytes: "length (i64_bytes val) = 8"
  by (simp add: i64_bytes_def)

lemma length_i32_bytes: "length (i32_bytes val) = 4"
  by (simp add: i32_bytes_def)

lemma i64_bytes_Cons: "\<exists>b bs. i64_bytes val = b # bs"
  using length_i64_bytes[of val] by (cases "i64_bytes val") simp_all

section \<open>Reading stored bytes\<close>

lemma read_next_byte_stored:
  assumes "w hdl \<noteq> 0" and "stored ops (w hdl) (surface hdl) (next_byte hdl) b"
  shows "read_next_byte ops hdl = (Inr b, hdl\<lparr>next_byte := next_byte hdl + 1\<rparr>)"
  using assms
  by (auto simp: read_next_byte_def stored_def Let_def split: sum.splits)

lemma read_next_bytes_int:
  assumes "w hdl \<noteq> 0" and "stored_list ops (w hdl) (surface hdl) (next_byte hdl) bs"
  shows "read_next_bytes ops (length bs) (\<lambda>output byte. Inr (push_bit 8 output + byte)) acc hdl =
           (Inr (foldl (\<lambda>output byte. push_bit 8 output + byte) acc bs),
            hdl\<lparr>next_byte := next_byte hdl + int (length bs)\<rparr>)"
  using assms
proof (induction bs arbitrary: acc hdl)
  case Nil
  then show ?case by simp
next
  case (Cons b bs)
  let ?h1 = "hdl\<lparr>next_byte := next_byte hdl + 1\<rparr>"
  from Cons.prems(2) have b: "stored ops (w hdl) (surface hdl) (next_byte hdl) b"
    and bs: "stored_list ops (w ?h1) (surface ?h1) (next_byte ?h1) bs"
    by (simp_all add: stored_list_Cons)
  have 1: "read_next_byte ops hdl = (Inr b, ?h1)"
    by (rule read_next_byte_stored[OF Cons.prems(1) b])
  have "w ?h1 \<noteq> 0" using Cons.prems(1) by simp
  from Cons.IH[OF this bs, of "push_bit 8 acc + b"] 1
  show ?case by (simp add: add.assoc)
qed

lemma read_next_i64_stored:
  assumes "w hdl \<noteq> 0" and "stored_list ops (w hdl) (surface hdl) (next_byte hdl) (i64_bytes val)"
  shows "read_next_i64 ops hdl =
           (Inr (reinterpret_i64 val), hdl\<lparr>next_byte := next_byte hdl + 8\<rparr>)"
  using read_next_bytes_int[OF assms, of 0]
  by (simp add: read_next_i64_def length_i64_bytes foldl_i64_bytes reinterpret_i64_def Let_def)

lemma read_next_i32_stored:
  assumes "w hdl \<noteq> 0" and "stored_list ops (w hdl) (surface hdl) (next_byte hdl) (i32_bytes val)"
  shows "read_next_i32 ops hdl =
           (Inr (reinterpret_i32 val), hdl\<lparr>next_byte := next_byte hdl + 4\<rparr>)"
  using read_next_bytes_int[OF assms, of 0]
  by (simp add: read_next_i32_def length_i32_bytes foldl_i32_bytes reinterpret_i32_def Let_def)

lemma signed_i64:
  assumes "- I64MAX - 1 \<le> val" and "val < I64MAX"
  shows "reinterpret_i64 val = val"
proof (cases "0 \<le> val")
  case True
  then have "take_bit 64 val = val"
    using assms by (simp add: take_bit_int_eq_self I64MAX_def)
  then show ?thesis using assms by (simp add: reinterpret_i64_def)
next
  case False
  have "take_bit 64 val = take_bit 64 (val + 2 ^ 64)"
    by (simp only: take_bit_eq_mod mod_add_self2)
  also have "\<dots> = val + 2 ^ 64"
    using assms False by (intro take_bit_int_eq_self) (simp_all add: I64MAX_def)
  finally show ?thesis using assms by (simp add: reinterpret_i64_def I64MAX_def U64MAX_def)
qed

lemma signed_i32:
  assumes "- I32MAX - 1 \<le> val" and "val < I32MAX"
  shows "reinterpret_i32 val = val"
proof (cases "0 \<le> val")
  case True
  then have "take_bit 32 val = val"
    using assms by (simp add: take_bit_int_eq_self I32MAX_def)
  then show ?thesis using assms by (simp add: reinterpret_i32_def)
next
  case False
  have "take_bit 32 val = take_bit 32 (val + 2 ^ 32)"
    by (simp only: take_bit_eq_mod mod_add_self2)
  also have "\<dots> = val + 2 ^ 32"
    using assms False by (intro take_bit_int_eq_self) (simp_all add: I32MAX_def)
  finally show ?thesis using assms by (simp add: reinterpret_i32_def I32MAX_def U32MAX_def)
qed

lemma read_next_bytes_str:
  assumes "w hdl \<noteq> 0"
    and "stored_list ops (w hdl) (surface hdl) (next_byte hdl) (map py_ord cs)"
    and "list_all (\<lambda>char. char < 1114112) cs"
  shows "read_next_bytes ops (length cs)
           (\<lambda>output ord. case py_chr ord of Inl e \<Rightarrow> Inl e | Inr c \<Rightarrow> Inr (output @ [c])) acc hdl =
           (Inr (acc @ cs), hdl\<lparr>next_byte := next_byte hdl + int (length cs)\<rparr>)"
  using assms
proof (induction cs arbitrary: acc hdl)
  case Nil
  then show ?case by simp
next
  case (Cons c cs)
  let ?h1 = "hdl\<lparr>next_byte := next_byte hdl + 1\<rparr>"
  from Cons.prems(2) have b: "stored ops (w hdl) (surface hdl) (next_byte hdl) (py_ord c)"
    and bs: "stored_list ops (w ?h1) (surface ?h1) (next_byte ?h1) (map py_ord cs)"
    by (simp_all add: stored_list_Cons)
  have 1: "read_next_byte ops hdl = (Inr (py_ord c), ?h1)"
    by (rule read_next_byte_stored[OF Cons.prems(1) b])
  have 2: "py_chr (py_ord c) = Inr c"
    using Cons.prems(3) by (simp add: py_chr_def py_ord_def)
  have "w ?h1 \<noteq> 0" using Cons.prems(1) by simp
  from Cons.IH[OF this bs, of "acc @ [c]"] Cons.prems(3) 1 2
  show ?case by (simp add: add.assoc)
qed

section \<open>Writers write the encoding\<close>

lemma object_codec_serialize:
  "object_codec ops proto oe okc \<Longrightarrow> img_serialize proto ob hdl = write_bytes ops (oe ob) hdl"
  unfolding object_codec_def by blast

lemma object_codec_bytes:
  "object_codec ops proto oe okc \<Longrightarrow> okc ob cls \<Longrightarrow> list_all is_byte (oe ob)"
  unfolding object_codec_def by blast

lemma object_codec_deserialize:
  "object_codec ops proto oe okc \<Longrightarrow> okc ob cls \<Longrightarrow> w hdl \<noteq> 0 \<Longrightarrow>
   stored_list ops (w hdl) (surface hdl) (next_byte hdl) (oe ob) \<Longrightarrow>
   img_deserialize proto cls hdl =
     (Inr ob, hdl\<lparr>next_byte := next_byte hdl + int (length (oe ob))\<rparr>)"
  unfolding object_codec_def by blast

lemma write_items_bytes:
  assumes "\<And>item hdl. item \<in> set val \<Longrightarrow>
             write_next ops proto item hdl = write_bytes ops (encode oe item) hdl"
  shows "write_items ops proto val hdl = write_bytes ops (concat (map (encode oe) val)) hdl"
  using assms
proof (induction val arbitrary: hdl)
  case Nil
  then show ?case by (simp add: write_bytes_Nil)
next
  case (Cons item rest)
  have "\<And>hdl'. write_items ops proto rest hdl' = write_bytes ops (concat (map (encode oe) rest)) hdl'"
    using Cons.prems by (intro Cons.IH) simp
  moreover have "write_next ops proto item hdl = write_bytes ops (encode oe item) hdl"
    using Cons.prems by simp
  ultimately show ?case
    by (simp add: write_bytes_append split: prod.splits sum.splits)
qed

lemma write_next_bytes:
  assumes "object_codec ops proto oe okc"
  shows "write_next ops proto val hdl = write_bytes ops (encode oe val) hdl"
proof (induction val arbitrary: hdl)
  case (PyInt x)
  show ?case by (simp add: write_next_i64_bytes)
next
  case (PyStr x)
  show ?case by (simp add: write_next_string_bytes)
next
  case (PyList x)
  have "write_items ops proto x hdl' = write_bytes ops (concat (map (encode oe) x)) hdl'" for hdl'
    by (rule write_items_bytes) (rule PyList.IH)
  then show ?case
    by (simp add: write_bytes_append write_next_i64_bytes split: prod.splits sum.splits)
next
  case (PyObj x)
  show ?case by (simp add: write_next_object_def object_codec_serialize[OF assms])
qed

lemma write_next_list_bytes:
  assumes "object_codec ops proto oe okc"
  shows "write_next_list ops proto val hdl = write_bytes ops (encode oe (PyList val)) hdl"
  using write_next_bytes[OF assms, of "PyList val" hdl] by simp

lemma has_type_cases:
  assumes "has_type okc val T"
  shows "(\<exists>i. val = PyInt i \<and> T = TInt \<and> - I64MAX - 1 \<le> i \<and> i < I64MAX) \<or>
         (\<exists>s. val = PyStr s \<and> T = TStr \<and> list_all (\<lambda>char. char < 256) s \<and> int (length s) < I64MAX) \<or>
         (\<exists>vs inner. val = PyList vs \<and> T = GenericAlias inner \<and>
              list_all (\<lambda>item. has_type okc item inner) vs \<and> int (length vs) < I64MAX) \<or>
         (\<exists>ob cls. val = PyObj ob \<and> T = TClass cls \<and> okc ob cls)"
  using assms by (cases val; cases T) simp_all

lemma is_byte_py_ord: "char < 256 \<Longrightarrow> is_byte (py_ord char)"
  by (simp add: is_byte_def py_ord_def)

section \<open>Readers read the encoding\<close>

lemma read_next_i64_in_range:
  assumes "w hdl \<noteq> 0"
    and "stored_list ops (w hdl) (surface hdl) (next_byte hdl) (i64_bytes val)"
    and "- I64MAX - 1 \<le> val" and "val < I64MAX"
  shows "read_next_i64 ops hdl = (Inr val, hdl\<lparr>next_byte := next_byte hdl + 8\<rparr>)"
  using read_next_i64_stored[OF assms(1,2)] signed_i64[OF assms(3,4)] by simp

lemma read_next_i32_in_range:
  assumes "w hdl \<noteq> 0"
    and "stored_list ops (w hdl) (surface hdl) (next_byte hdl) (i32_bytes val)"
    and "- I32MAX - 1 \<le> val" and "val < I32MAX"
  shows "read_next_i32 ops hdl = (Inr val, hdl\<lparr>next_byte := next_byte hdl + 4\<rparr>)"
  using read_next_i32_stored[OF assms(1,2)] signed_i32[OF assms(3,4)] by simp

lemma read_next_string_stored:
  assumes "w hdl \<noteq> 0"
    and st: "stored_list ops (w hdl) (surface hdl) (next_byte hdl)
           (i64_bytes (int (length val)) @ map py_ord val)"
    and ch: "list_all (\<lambda>char. char < 1114112) val" and len: "int (length val) < I64MAX"
  shows "read_next_string ops hdl =
           (Inr val, hdl\<lparr>next_byte := next_byte hdl + 8 + int (length val)\<rparr>)"
proof -
  let ?h1 = "hdl\<lparr>next_byte := next_byte hdl + 8\<rparr>"
  from st have 1: "stored_list ops (w hdl) (surface hdl) (next_byte hdl) (i64_bytes (int (length val)))"
    and 2: "stored_list ops (w ?h1) (surface ?h1) (next_byte ?h1) (map py_ord val)"
    by (simp_all add: stored_list_append length_i64_bytes)
  have "- I64MAX - 1 \<le> int (length val)" by (simp add: I64MAX_def)
  from read_next_i64_in_range[OF assms(1) 1 this len]
  have r: "read_next_i64 ops hdl = (Inr (int (length val)), ?h1)" .
  have "w ?h1 \<noteq> 0" using assms(1) by simp
  from read_next_bytes_str[OF this 2 ch, of "[]"] r
  show ?thesis by (simp add: read_next_string_def)
qed

lemma read_items_stored:
  assumes "w hdl \<noteq> 0"
    and "\<And>item hdl. item \<in> set vs \<Longrightarrow> w hdl \<noteq> 0 \<Longrightarrow>
           stored_list ops (w hdl) (surface hdl) (next_byte hdl) (encode oe item) \<Longrightarrow>
           read_next ops proto inner hdl =
             (Inr (reread item), hdl\<lparr>next_byte := next_byte hdl + int (length (encode oe item))\<rparr>)"
    and "stored_list ops (w hdl) (surface hdl) (next_byte hdl) (concat (map (encode oe) vs))"
  shows "read_items ops proto inner (length vs) acc hdl =
           (Inr (acc @ map reread vs),
            hdl\<lparr>next_byte := next_byte hdl + int (length (concat (map (encode oe) vs)))\<rparr>)"
  using assms
proof (induction vs arbitrary: acc hdl)
  case Nil
  then show ?case by simp
next
  case (Cons item rest)
  let ?h1 = "hdl\<lparr>next_byte := next_byte hdl + int (length (encode oe item))\<rparr>"
  from Cons.prems(3) have
    1: "stored_list ops (w hdl) (surface hdl) (next_byte hdl) (encode oe item)" and
    2: "stored_list ops (w ?h1) (surface ?h1) (next_byte ?h1) (concat (map (encode oe) rest))"
    by (simp_all add: stored_list_append)
  have r: "read_next ops proto inner hdl = (Inr (reread item), ?h1)"
    using Cons.prems(1) 1 by (intro Cons.prems(2)) simp_all
  have w1: "w ?h1 \<noteq> 0" using Cons.prems(1) by simp
  have "read_items ops proto inner (length rest) (acc @ [reread item]) ?h1 =
          (Inr ((acc @ [reread item]) @ map reread rest),
           ?h1\<lparr>next_byte := next_byte ?h1 + int (length (concat (map (encode oe) rest)))\<rparr>)"
    using Cons.prems(2) by (intro Cons.IH[OF w1 _ 2]) simp_all
  with r show ?case by (simp add: add.assoc)
qed

lemma writable_cases:
  assumes "writable okc val T"
  shows "(\<exists>i. val = PyInt i \<and> T = TInt) \<or>
         (\<exists>s. val = PyStr s \<and> T = TStr \<and> list_all (\<lambda>char. char < 256) s \<and> int (length s) < I64MAX) \<or>
         (\<exists>vs inner. val = PyList vs \<and> T = GenericAlias inner \<and>
              list_all (\<lambda>item. writable okc item inner) vs \<and> int (length vs) < I64MAX) \<or>
         (\<exists>ob cls. val = PyObj ob \<and> T = TClass cls \<and> okc ob cls)"
  using assms by (cases val; cases T) simp_all

lemma has_type_writable: "has_type okc val T \<Longrightarrow> writable okc val T"
proof (induction val arbitrary: T)
  case (PyList x)
  from has_type_cases[OF PyList.prems] obtain inner where T: "T = GenericAlias inner"
    and m: "list_all (\<lambda>item. has_type okc item inner) x" and l: "int (length x) < I64MAX" by auto
  from m PyList.IH have "list_all (\<lambda>item. writable okc item inner) x"
    by (auto simp: list_all_iff)
  with T l show ?case by simp
qed (auto dest: has_type_cases)

lemma has_type_reread: "has_type okc val T \<Longrightarrow> reread val = val"
proof (induction val arbitrary: T)
  case (PyInt x)
  from has_type_cases[OF PyInt.prems] show ?case by (auto simp: signed_i64)
next
  case (PyList x)
  from has_type_cases[OF PyList.prems] obtain inner where
    m: "list_all (\<lambda>item. has_type okc item inner) x" by auto
  with PyList.IH have "\<forall>item \<in> set x. reread item = item" by (auto simp: list_all_iff)
  then show ?case by (simp add: map_idI)
qed simp_all

lemma encode_bytes:
  assumes "object_codec ops proto oe okc"
  shows "writable okc val T \<Longrightarrow> list_all is_byte (encode oe val)"
proof (induction val arbitrary: T)
  case (PyInt x)
  show ?case by (simp add: i64_bytes_bytes)
next
  case (PyStr x)
  then have "list_all (\<lambda>char. char < 256) x"
    using writable_cases[OF PyStr.prems] by auto
  then show ?case
    using i64_bytes_bytes[of "int (length x)"] by (auto simp: list_all_iff is_byte_py_ord)
next
  case (PyList x)
  from writable_cases[OF PyList.prems] obtain inner where
    "list_all (\<lambda>item. writable okc item inner) x" by auto
  with PyList.IH have "\<forall>item \<in> set x. list_all is_byte (encode oe item)"
    by (auto simp: list_all_iff)
  then show ?case
    using i64_bytes_bytes[of "int (length x)"] by (auto simp: list_all_iff)
next
  case (PyObj x)
  from writable_cases[OF PyObj.prems] obtain cls where "okc x cls" by auto
  from object_codec_bytes[OF assms this] show ?case by simp
qed

lemma read_next_stored:
  fixes ops :: "'s ImgSurface"
  assumes codec: "object_codec ops proto oe okc"
  shows "writable okc val T \<Longrightarrow> w hdl \<noteq> 0 \<Longrightarrow>
         stored_list ops (w hdl) (surface hdl) (next_byte hdl) (encode oe val) \<Longrightarrow>
         read_next ops proto T hdl =
           (Inr (reread val), hdl\<lparr>next_byte := next_byte hdl + int (length (encode oe val))\<rparr>)"
proof (induction val arbitrary: T hdl)
  case (PyInt x)
  from writable_cases[OF PyInt.prems(1)] have T: "T = TInt" by auto
  from PyInt.prems(3) have "stored_list ops (w hdl) (surface hdl) (next_byte hdl) (i64_bytes x)"
    by simp
  from read_next_i64_stored[OF PyInt.prems(2) this] show ?case
    by (simp add: T length_i64_bytes)
next
  case (PyStr x)
  from writable_cases[OF PyStr.prems(1)] have T: "T = TStr"
    and c: "list_all (\<lambda>char. char < 256) x" and l: "int (length x) < I64MAX" by auto
  from c have c': "list_all (\<lambda>char. char < 1114112) x" by (auto simp: list_all_iff)
  from PyStr.prems(3) have "stored_list ops (w hdl) (surface hdl) (next_byte hdl)
      (i64_bytes (int (length x)) @ map py_ord x)" by simp
  from read_next_string_stored[OF PyStr.prems(2) this c' l] show ?case
    by (simp add: T length_i64_bytes)
next
  case (PyList x)
  from writable_cases[OF PyList.prems(1)] obtain inner where T: "T = GenericAlias inner"
    and m: "list_all (\<lambda>item. writable okc item inner) x" and l: "int (length x) < I64MAX" by auto
  let ?h1 = "hdl\<lparr>next_byte := next_byte hdl + 8\<rparr>"
  from PyList.prems(3) have
    1: "stored_list ops (w hdl) (surface hdl) (next_byte hdl) (i64_bytes (int (length x)))" and
    2: "stored_list ops (w ?h1) (surface ?h1) (next_byte ?h1) (concat (map (encode oe) x))"
    by (simp_all add: stored_list_append length_i64_bytes)
  have "- I64MAX - 1 \<le> int (length x)" by (simp add: I64MAX_def)
  from read_next_i64_in_range[OF PyList.prems(2) 1 this l]
  have r: "read_next_i64 ops hdl = (Inr (int (length x)), ?h1)" .
  have w1: "w ?h1 \<noteq> 0" using PyList.prems(2) by simp
  have "read_items ops proto inner (length x) [] ?h1 =
          (Inr ([] @ map reread x),
           ?h1\<lparr>next_byte := next_byte ?h1 + int (length (concat (map (encode oe) x)))\<rparr>)"
  proof (rule read_items_stored[OF w1 _ 2])
    fix item and hdl' :: "'s ImgHandler"
    assume "item \<in> set x" and "w hdl' \<noteq> 0"
      and "stored_list ops (w hdl') (surface hdl') (next_byte hdl') (encode oe item)"
    moreover from \<open>item \<in> set x\<close> m have "writable okc item inner" by (simp add: list_all_iff)
    ultimately show "read_next ops proto inner hdl' =
      (Inr (reread item), hdl'\<lparr>next_byte := next_byte hdl' + int (length (encode oe item))\<rparr>)"
      by (intro PyList.IH)
  qed
  with r show ?case by (simp add: T length_i64_bytes add.assoc)
next
  case (PyObj x)
  from writable_cases[OF PyObj.prems(1)] obtain cls where T: "T = TClass cls"
    and ok: "okc x cls" by auto
  from PyObj.prems(3) have "stored_list ops (w hdl) (surface hdl) (next_byte hdl) (oe x)" by simp
  from object_codec_deserialize[OF codec ok PyObj.prems(2) this] show ?case
    by (simp add: T read_next_object_def)
qed

section \<open>Round trip and capacity\<close>

lemma roundtrip:
  fixes ops :: "'s ImgSurface"
  assumes laws: "surface_laws ops" and codec: "object_codec ops proto oe okc"
    and ty: "writable okc val T" and w0: "w hdl \<noteq> 0"
    and wr: "write_next ops proto val hdl = (Inr u, hdl')"
  shows "read_next ops proto T (hdl'\<lparr>next_byte := next_byte hdl\<rparr>) = (Inr (reread val), hdl')"
proof -
  from wr have wb: "write_bytes ops (encode oe val) hdl = (Inr u, hdl')"
    by (simp add: write_next_bytes[OF codec])
  from write_bytes_stored[OF laws encode_bytes[OF codec ty] wb] have
    n: "next_byte hdl' = next_byte hdl + int (length (encode oe val))" and
    st: "stored_list ops (w hdl) (surface hdl') (next_byte hdl) (encode oe val)"
    by blast+
  from write_bytes_fields[OF wb] have f: "w hdl' = w hdl" by simp
  let ?h = "hdl'\<lparr>next_byte := next_byte hdl\<rparr>"
  have "w ?h \<noteq> 0" using w0 f by simp
  moreover have "stored_list ops (w ?h) (surface ?h) (next_byte ?h) (encode oe val)"
    using st f by simp
  ultimately have "read_next ops proto T ?h =
      (Inr (reread val), ?h\<lparr>next_byte := next_byte ?h + int (length (encode oe val))\<rparr>)"
    by (rule read_next_stored[OF codec ty])
  then show ?thesis using n by simp
qed

lemma pixel_row_bound:
  fixes k W H :: int
  assumes "0 < W" and "0 \<le> k"
  shows "k div W < H \<longleftrightarrow> k < W * H"
proof -
  have e: "k = W * (k div W) + k mod W" by simp
  have m: "0 \<le> k mod W" "k mod W < W" using assms by simp_all
  show ?thesis
  proof
    assume "k div W < H"
    then have "W * (k div W + 1) \<le> W * H" using assms by (intro mult_left_mono) simp_all
    then have "W * (k div W) + W \<le> W * H" by (simp add: algebra_simps)
    with e m show "k < W * H" by linarith
  next
    assume a: "k < W * H"
    show "k div W < H"
    proof (rule ccontr)
      assume "\<not> k div W < H"
      then have "W * H \<le> W * (k div W)" using assms by (intro mult_left_mono) simp_all
      with e m a show False by linarith
    qed
  qed
qed

lemma inside_iff:
  assumes "0 < get_width ops s"
  shows "inside ops s (n div 3 mod get_width ops s, n div 3 div get_width ops s) \<longleftrightarrow>
         0 \<le> n \<and> n < 3 * get_width ops s * get_height ops s"
proof (cases "0 \<le> n")
  case True
  then have "0 \<le> n div 3" by simp
  from pixel_row_bound[OF assms this, of "get_height ops s"] True assms
  show ?thesis
    by (auto simp: inside_def pos_imp_zdiv_nonneg_iff)
next
  case False
  then have "n div 3 < 0" by simp
  then have "n div 3 div get_width ops s < 0"
    using assms by (simp add: div_neg_pos_less0)
  with False show ?thesis by (simp add: inside_def)
qed

section \<open>The example surfaces\<close>

lemma pxl_of_pxl8_of: "byte_pxl c \<Longrightarrow> pxl_of (pxl8_of c) = c"
  by (cases c) (simp add: is_byte_def uint_word_of_int_eq take_bit_int_eq_self)

lemma byte_pxl_pxl_of: "byte_pxl (pxl_of c)"
proof (cases c)
  case (fields c0 c1 c2)
  have "uint x < 256" for x :: "8 word"
    using uint_bounded[of x] by simp
  then show ?thesis using fields by (simp add: is_byte_def)
qed

lemma grid_get_at_byte_pxl:
  assumes "grid_get_at g p = Inr c"
  shows "byte_pxl c"
proof -
  from assms have "c = pxl_of (pix g p)"
    by (simp add: grid_get_at_def split: if_splits)
  then show ?thesis by (simp only: byte_pxl_pxl_of)
qed

lemma grid_set_at_get_at:
  assumes "byte_pxl c" and "grid_set_at g p c = Inr g'"
  shows "grid_get_at g' p = Inr c" and "q \<noteq> p \<Longrightarrow> grid_get_at g' q = grid_get_at g q"
proof -
  from assms(2) have i: "in_grid g p" and g': "g' = g\<lparr>pix := (pix g)(p := pxl8_of c)\<rparr>"
    by (simp_all add: grid_set_at_def split: if_splits)
  from i have "in_grid g' p" by (simp add: g' in_grid_def)
  then show "grid_get_at g' p = Inr c"
    by (simp add: grid_get_at_def g' pxl_of_pxl8_of[OF assms(1)])
  show "q \<noteq> p \<Longrightarrow> grid_get_at g' q = grid_get_at g q"
    by (simp add: grid_get_at_def g' in_grid_def)
qed

lemma grid_laws: "surface_laws grid_ops"
  unfolding surface_laws_def
proof (intro conjI allI impI)
  fix s p c assume "get_at grid_ops s p = Inr c"
  then show "byte_pxl c" by (simp add: grid_ops_def grid_get_at_byte_pxl)
next
  fix s p c s' assume "byte_pxl c" and "set_at grid_ops s p c = Inr s'"
  then show "get_at grid_ops s' p = Inr c"
    by (simp add: grid_ops_def grid_set_at_get_at(1))
next
  fix s p c s' q assume "byte_pxl c" and "set_at grid_ops s p c = Inr s'" and "q \<noteq> p"
  then show "get_at grid_ops s' q = get_at grid_ops s q"
    by (simp add: grid_ops_def grid_set_at_get_at(2))
qed

lemma unchecked_laws: "surface_laws unchecked_ops"
  unfolding surface_laws_def
proof (intro conjI allI impI)
  fix s p c assume "get_at unchecked_ops s p = Inr c"
  then have "c = pxl_of (pix s p)" by (auto simp: unchecked_ops_def)
  then show "byte_pxl c" by (simp only: byte_pxl_pxl_of)
next
  fix s :: grid and p c s' assume "byte_pxl c" and "set_at unchecked_ops s p c = Inr s'"
  then show "get_at unchecked_ops s' p = Inr c"
    by (auto simp: unchecked_ops_def pxl_of_pxl8_of simp del: pxl_of.simps pxl8_of.simps)
next
  fix s :: grid and p c s' q
  assume "byte_pxl c" and "set_at unchecked_ops s p c = Inr s'" and "q \<noteq> p"
  then show "get_at unchecked_ops s' q = get_at unchecked_ops s q"
    by (auto simp: unchecked_ops_def)
qed

lemma grid_bounds_checked: "bounds_checked grid_ops"
  unfolding bounds_checked_def
proof (intro conjI allI impI)
  fix s p assume "inside grid_ops s p"
  then have "get_at grid_ops s p = Inr (pxl_of (pix s p))"
    by (simp add: inside_def grid_ops_def grid_get_at_def in_grid_def)
  then show "\<exists>c. get_at grid_ops s p = Inr c" by (rule exI)
next
  fix s p c assume "inside grid_ops s p" and "byte_pxl c"
  then show "\<exists>s'. set_at grid_ops s p c = Inr s' \<and>
            get_width grid_ops s' = get_width grid_ops s \<and>
            get_height grid_ops s' = get_height grid_ops s"
    by (simp add: inside_def grid_ops_def grid_set_at_def in_grid_def)
next
  fix s p assume "\<not> inside grid_ops s p"
  then show "\<exists>e. get_at grid_ops s p = Inl e"
    by (simp add: inside_def grid_ops_def grid_get_at_def in_grid_def)
qed

section \<open>Capacity of a surface that checks bounds\<close>

lemma bounds_checked_get:
  "bounds_checked ops \<Longrightarrow> inside ops s p \<Longrightarrow> \<exists>c. get_at ops s p = Inr c"
  unfolding bounds_checked_def by blast

lemma bounds_checked_set:
  "bounds_checked ops \<Longrightarrow> inside ops s p \<Longrightarrow> byte_pxl c \<Longrightarrow>
   \<exists>s'. set_at ops s p c = Inr s' \<and> get_width ops s' = get_width ops s \<and>
        get_height ops s' = get_height ops s"
  unfolding bounds_checked_def by blast

lemma bounds_checked_outside:
  "bounds_checked ops \<Longrightarrow> \<not> inside ops s p \<Longrightarrow> \<exists>e. get_at ops s p = Inl e"
  unfolding bounds_checked_def by blast

lemma init_attached: "attached ops (init ops surf)"
  by (simp add: attached_def init_def)

lemma attached_inside_iff:
  assumes "attached ops hdl" and "0 < w hdl"
  shows "inside ops (surface hdl) (next_byte hdl div 3 mod w hdl, next_byte hdl div 3 div w hdl)
         \<longleftrightarrow> 0 \<le> next_byte hdl \<and> next_byte hdl < 3 * w hdl * h hdl"
  using assms inside_iff[of ops "surface hdl" "next_byte hdl"] by (simp add: attached_def)

lemma write_next_byte_inside:
  assumes laws: "surface_laws ops" and bc: "bounds_checked ops" and att: "attached ops hdl"
    and w0: "0 < w hdl" and n: "0 \<le> next_byte hdl" "next_byte hdl < 3 * w hdl * h hdl"
    and b: "is_byte b"
  shows "\<exists>hdl'. write_next_byte ops b hdl = (Inr (), hdl') \<and> attached ops hdl'"
proof -
  let ?p = "(next_byte hdl div 3 mod w hdl, next_byte hdl div 3 div w hdl)"
  have i: "inside ops (surface hdl) ?p"
    using attached_inside_iff[OF att w0] n by simp
  from bounds_checked_get[OF bc i] obtain color where
    g: "get_at ops (surface hdl) ?p = Inr color" by blast
  have "byte_pxl (set_channel color (next_byte hdl mod 3) b)"
    using surface_laws_get[OF laws g] b by (rule byte_pxl_set_channel)
  from bounds_checked_set[OF bc i this] obtain surf where
    s: "set_at ops (surface hdl) ?p (set_channel color (next_byte hdl mod 3) b) = Inr surf"
    and d: "get_width ops surf = get_width ops (surface hdl)"
           "get_height ops surf = get_height ops (surface hdl)"
    by blast
  have "write_next_byte ops b hdl =
          (Inr (), hdl\<lparr>surface := surf, next_byte := next_byte hdl + 1\<rparr>)"
    using w0 g s by (simp add: write_next_byte_def Let_def)
  moreover have "attached ops (hdl\<lparr>surface := surf, next_byte := next_byte hdl + 1\<rparr>)"
    using att d by (simp add: attached_def)
  ultimately show ?thesis by blast
qed

lemma write_next_byte_outside:
  assumes bc: "bounds_checked ops" and att: "attached ops hdl" and w0: "0 < w hdl"
    and n: "next_byte hdl < 0 \<or> 3 * w hdl * h hdl \<le> next_byte hdl"
  shows "\<exists>e. write_next_byte ops b hdl = (Inl e, hdl)"
proof -
  let ?p = "(next_byte hdl div 3 mod w hdl, next_byte hdl div 3 div w hdl)"
  have "\<not> inside ops (surface hdl) ?p"
    using attached_inside_iff[OF att w0] n by auto
  from bounds_checked_outside[OF bc this] obtain e where
    "get_at ops (surface hdl) ?p = Inl e" by blast
  then have "write_next_byte ops b hdl = (Inl e, hdl)"
    using w0 by (simp add: write_next_byte_def Let_def)
  then show ?thesis by blast
qed

lemma read_next_byte_outside:
  assumes bc: "bounds_checked ops" and att: "attached ops hdl" and w0: "0 < w hdl"
    and n: "next_byte hdl < 0 \<or> 3 * w hdl * h hdl \<le> next_byte hdl"
  shows "\<exists>e. read_next_byte ops hdl = (Inl e, hdl)"
proof -
  let ?p = "(next_byte hdl div 3 mod w hdl, next_byte hdl div 3 div w hdl)"
  have "\<not> inside ops (surface hdl) ?p"
    using attached_inside_iff[OF att w0] n by auto
  from bounds_checked_outside[OF bc this] obtain e where
    "get_at ops (surface hdl) ?p = Inl e" by blast
  then have "read_next_byte ops hdl = (Inl e, hdl)"
    using w0 by (simp add: read_next_byte_def Let_def)
  then show ?thesis by blast
qed

lemma write_bytes_fits:
  assumes laws: "surface_laws ops" and bc: "bounds_checked ops"
  shows "attached ops hdl \<Longrightarrow> 0 < w hdl \<Longrightarrow> 0 \<le> next_byte hdl \<Longrightarrow>
         next_byte hdl + int (length bs) \<le> 3 * w hdl * h hdl \<Longrightarrow> list_all is_byte bs \<Longrightarrow>
         \<exists>hdl'. write_bytes ops bs hdl = (Inr (), hdl') \<and> attached ops hdl'"
proof (induction bs arbitrary: hdl)
  case Nil
  then show ?case by (simp add: write_bytes_Nil)
next
  case (Cons b bs)
  from Cons.prems have b: "is_byte b" and bs: "list_all is_byte bs"
    and n: "next_byte hdl < 3 * w hdl * h hdl" by simp_all
  from write_next_byte_inside[OF laws bc Cons.prems(1,2,3) n b] obtain h1 where
    1: "write_next_byte ops b hdl = (Inr (), h1)" and a1: "attached ops h1" by blast
  note f = write_next_byte_fields[OF 1] and c = write_next_byte_cursor[OF 1]
  have "\<exists>hdl'. write_bytes ops bs h1 = (Inr (), hdl') \<and> attached ops hdl'"
    using Cons.prems f c by (intro Cons.IH[OF a1 _ _ _ bs]) simp_all
  with 1 show ?case by (simp add: write_bytes_Cons)
qed

section \<open>The example class is a codec\<close>

lemma player_serialize_bytes:
  "player_serialize ops p hdl = write_bytes ops (player_bytes p) hdl"
  by (cases p)
     (simp add: write_bytes_append write_next_i32_bytes write_next_string_bytes
           split: prod.splits sum.splits)

lemma player_bytes_ok:
  assumes "player_ok p cls"
  shows "list_all is_byte (player_bytes p)"
proof (cases p)
  case (Player_Example x y health name)
  with assms have "list_all (\<lambda>char. char < 256) name" by simp
  then have "list_all is_byte (map py_ord name)"
    by (auto simp: list_all_iff is_byte_py_ord)
  then show ?thesis
    using Player_Example by (simp add: i32_bytes_bytes i64_bytes_bytes)
qed

lemma player_deserialize_stored:
  assumes ok: "player_ok p cls" and w0: "w hdl \<noteq> 0"
    and st: "stored_list ops (w hdl) (surface hdl) (next_byte hdl) (player_bytes p)"
  shows "player_deserialize ops hdl =
           (Inr p, hdl\<lparr>next_byte := next_byte hdl + int (length (player_bytes p))\<rparr>)"
proof (cases p)
  case (Player_Example x y health name)
  let ?h1 = "hdl\<lparr>next_byte := next_byte hdl + 4\<rparr>"
  let ?h2 = "hdl\<lparr>next_byte := next_byte hdl + 8\<rparr>"
  let ?h3 = "hdl\<lparr>next_byte := next_byte hdl + 12\<rparr>"
  from ok Player_Example have r:
    "- I32MAX - 1 \<le> x" "x < I32MAX" "- I32MAX - 1 \<le> y" "y < I32MAX"
    "- I32MAX - 1 \<le> health" "health < I32MAX"
    and c: "list_all (\<lambda>char. char < 256) name" and l: "int (length name) < I64MAX"
    by simp_all
  from c have c': "list_all (\<lambda>char. char < 1114112) name" by (auto simp: list_all_iff)
  from st Player_Example have
    1: "stored_list ops (w hdl) (surface hdl) (next_byte hdl) (i32_bytes x)" and
    2: "stored_list ops (w ?h1) (surface ?h1) (next_byte ?h1) (i32_bytes y)" and
    3: "stored_list ops (w ?h2) (surface ?h2) (next_byte ?h2) (i32_bytes health)" and
    4: "stored_list ops (w ?h3) (surface ?h3) (next_byte ?h3)
          (i64_bytes (int (length name)) @ map py_ord name)"
    by (simp_all add: stored_list_append length_i32_bytes add.assoc)
  have w1: "w ?h1 \<noteq> 0" and w2: "w ?h2 \<noteq> 0" and w3: "w ?h3 \<noteq> 0" using w0 by simp_all
  have a: "read_next_i32 ops hdl = (Inr x, ?h1)"
    using read_next_i32_in_range[OF w0 1 r(1,2)] .
  have b: "read_next_i32 ops ?h1 = (Inr y, ?h2)"
    using read_next_i32_in_range[OF w1 2 r(3,4)] by simp
  have c: "read_next_i32 ops ?h2 = (Inr health, ?h3)"
    using read_next_i32_in_range[OF w2 3 r(5,6)] by simp
  have d: "read_next_string ops ?h3 =
             (Inr name, hdl\<lparr>next_byte := next_byte hdl + 12 + 8 + int (length name)\<rparr>)"
    using read_next_string_stored[OF w3 4 c' l] by simp
  show ?thesis
    using a b c d Player_Example
    by (simp add: player_deserialize_def length_i32_bytes length_i64_bytes)
qed

lemma player_codec:
  fixes ops :: "'s ImgSurface"
  shows "object_codec ops (player_proto ops) player_bytes player_ok"
  unfolding object_codec_def
proof (intro conjI allI impI)
  fix ob hdl
  show "img_serialize (player_proto ops) ob hdl = write_bytes ops (player_bytes ob) hdl"
    by (simp add: player_proto_def player_serialize_bytes)
next
  fix ob cls assume "player_ok ob cls"
  then show "list_all is_byte (player_bytes ob)" by (rule player_bytes_ok)
next
  fix ob cls and hdl :: "'s ImgHandler"
  assume "player_ok ob cls" and "w hdl \<noteq> 0"
    and "stored_list ops (w hdl) (surface hdl) (next_byte hdl) (player_bytes ob)"
  then show "img_deserialize (player_proto ops) cls hdl =
      (Inr ob, hdl\<lparr>next_byte := next_byte hdl + int (length (player_bytes ob))\<rparr>)"
    by (simp add: player_proto_def player_deserialize_stored)
qed

section \<open>Reading leaves the surface alone\<close>

lemma keeps_surfaceI:
  assumes "\<And>hdl r hdl'. m hdl = (r, hdl') \<Longrightarrow>
             surface hdl' = surface hdl \<and> w hdl' = w hdl \<and> h hdl' = h hdl"
  shows "keeps_surface m"
  using assms unfolding keeps_surface_def by blast

lemma keeps_surfaceD:
  assumes "keeps_surface m" and "m hdl = (r, hdl')"
  shows "surface hdl' = surface hdl \<and> w hdl' = w hdl \<and> h hdl' = h hdl"
  using assms unfolding keeps_surface_def by blast

lemma read_next_byte_keeps: "keeps_surface (read_next_byte ops)"
  by (rule keeps_surfaceI)
     (auto simp: read_next_byte_def Let_def split: if_splits sum.splits)

lemma read_next_bytes_keeps: "keeps_surface (read_next_bytes ops n body acc)"
proof (rule keeps_surfaceI)
  fix hdl r hdl'
  show "read_next_bytes ops n body acc hdl = (r, hdl') \<Longrightarrow>
        surface hdl' = surface hdl \<and> w hdl' = w hdl \<and> h hdl' = h hdl"
  proof (induction n arbitrary: acc hdl)
    case 0
    then show ?case by simp
  next
    case (Suc n)
    obtain r1 h1 where 1: "read_next_byte ops hdl = (r1, h1)" by (cases "read_next_byte ops hdl")
    note k = keeps_surfaceD[OF read_next_byte_keeps 1]
    show ?case
    proof (cases r1)
      case (Inl e)
      with Suc.prems 1 k show ?thesis by simp
    next
      case (Inr byte)
      show ?thesis
      proof (cases "body acc byte")
        case (Inl e)
        with Suc.prems 1 Inr k show ?thesis by simp
      next
        case inner: (Inr acc')
        with Suc.prems 1 Inr have "read_next_bytes ops n body acc' h1 = (r, hdl')" by simp
        from Suc.IH[OF this] k show ?thesis by simp
      qed
    qed
  qed
qed

lemma read_next_i32_keeps: "keeps_surface (read_next_i32 ops)"
proof (rule keeps_surfaceI)
  fix hdl r hdl' assume a: "read_next_i32 ops hdl = (r, hdl')"
  obtain r1 h1 where 1: "read_next_bytes ops 4 (\<lambda>output byte. Inr (push_bit 8 output + byte)) 0 hdl = (r1, h1)"
    by (cases "read_next_bytes ops 4 (\<lambda>output byte. Inr (push_bit 8 output + byte)) 0 hdl")
  from a 1 have "hdl' = h1" by (auto simp: read_next_i32_def split: sum.splits)
  with keeps_surfaceD[OF read_next_bytes_keeps 1]
  show "surface hdl' = surface hdl \<and> w hdl' = w hdl \<and> h hdl' = h hdl" by simp
qed

lemma read_next_i64_keeps: "keeps_surface (read_next_i64 ops)"
proof (rule keeps_surfaceI)
  fix hdl r hdl' assume a: "read_next_i64 ops hdl = (r, hdl')"
  obtain r1 h1 where 1: "read_next_bytes ops 8 (\<lambda>output byte. Inr (push_bit 8 output + byte)) 0 hdl = (r1, h1)"
    by (cases "read_next_bytes ops 8 (\<lambda>output byte. Inr (push_bit 8 output + byte)) 0 hdl")
  from a 1 have "hdl' = h1" by (auto simp: read_next_i64_def split: sum.splits)
  with keeps_surfaceD[OF read_next_bytes_keeps 1]
  show "surface hdl' = surface hdl \<and> w hdl' = w hdl \<and> h hdl' = h hdl" by simp
qed

lemma read_next_string_keeps: "keeps_surface (read_next_string ops)"
proof (rule keeps_surfaceI)
  fix hdl r hdl' assume a: "read_next_string ops hdl = (r, hdl')"
  obtain r1 h1 where 1: "read_next_i64 ops hdl = (r1, h1)" by (cases "read_next_i64 ops hdl")
  note k = keeps_surfaceD[OF read_next_i64_keeps 1]
  show "surface hdl' = surface hdl \<and> w hdl' = w hdl \<and> h hdl' = h hdl"
  proof (cases r1)
    case (Inl e)
    with a 1 k show ?thesis by (simp add: read_next_string_def)
  next
    case (Inr sz)
    with a 1 have "read_next_bytes ops (nat sz)
      (\<lambda>output ord. case py_chr ord of Inl e \<Rightarrow> Inl e | Inr c \<Rightarrow> Inr (output @ [c])) [] h1 = (r, hdl')"
      by (simp add: read_next_string_def)
    from keeps_surfaceD[OF read_next_bytes_keeps this] k show ?thesis by simp
  qed
qed

lemma read_items_keeps:
  assumes "\<And>hdl r hdl'. read_next ops proto T hdl = (r, hdl') \<Longrightarrow>
             surface hdl' = surface hdl \<and> w hdl' = w hdl \<and> h hdl' = h hdl"
  shows "read_items ops proto T n acc hdl = (r, hdl') \<Longrightarrow>
         surface hdl' = surface hdl \<and> w hdl' = w hdl \<and> h hdl' = h hdl"
proof (induction n arbitrary: acc hdl)
  case 0
  then show ?case by simp
next
  case (Suc n)
  obtain r1 h1 where 1: "read_next ops proto T hdl = (r1, h1)"
    by (cases "read_next ops proto T hdl")
  note k = assms[OF 1]
  show ?case
  proof (cases r1)
    case (Inl e)
    with Suc.prems 1 k show ?thesis by simp
  next
    case (Inr item)
    with Suc.prems 1 have "read_items ops proto T n (acc @ [item]) h1 = (r, hdl')" by simp
    from Suc.IH[OF this] k show ?thesis by simp
  qed
qed

lemma read_next_list_keeps_aux:
  assumes "\<And>hdl r hdl'. read_next ops proto T hdl = (r, hdl') \<Longrightarrow>
             surface hdl' = surface hdl \<and> w hdl' = w hdl \<and> h hdl' = h hdl"
    and a: "read_next_list ops proto T hdl = (r, hdl')"
  shows "surface hdl' = surface hdl \<and> w hdl' = w hdl \<and> h hdl' = h hdl"
proof -
  obtain r1 h1 where 1: "read_next_i64 ops hdl = (r1, h1)" by (cases "read_next_i64 ops hdl")
  note k = keeps_surfaceD[OF read_next_i64_keeps 1]
  show ?thesis
  proof (cases r1)
    case (Inl e)
    with a 1 k show ?thesis by simp
  next
    case (Inr sz)
    with a 1 have "read_items ops proto T (nat sz) [] h1 = (r, hdl')" by simp
    from read_items_keeps[OF assms(1) this] k show ?thesis by simp
  qed
qed

lemma read_next_keeps_aux:
  fixes ops :: "'s ImgSurface" and proto :: "('s, 'o, 'c) ImgSerializable"
  assumes d: "\<And>cls. keeps_surface (img_deserialize proto cls)"
  shows "read_next ops proto T hdl = (r, hdl') \<Longrightarrow>
         surface hdl' = surface hdl \<and> w hdl' = w hdl \<and> h hdl' = h hdl"
proof (induction T arbitrary: hdl r hdl')
  case TInt
  obtain r1 h1 where 1: "read_next_i64 ops hdl = (r1, h1)" by (cases "read_next_i64 ops hdl")
  with TInt have "hdl' = h1" by (auto split: sum.splits)
  with keeps_surfaceD[OF read_next_i64_keeps 1] show ?case by simp
next
  case TStr
  obtain r1 h1 where 1: "read_next_string ops hdl = (r1, h1)"
    by (cases "read_next_string ops hdl")
  with TStr have "hdl' = h1" by (auto split: sum.splits)
  with keeps_surfaceD[OF read_next_string_keeps 1] show ?case by simp
next
  case (GenericAlias T)
  obtain r1 h1 where 1: "read_next_list ops proto T hdl = (r1, h1)"
    by (cases "read_next_list ops proto T hdl")
  with GenericAlias.prems have "hdl' = h1" by (auto split: sum.splits)
  with read_next_list_keeps_aux[OF GenericAlias.IH 1] show ?case by simp
next
  case (TClass cls)
  obtain r1 h1 where 1: "img_deserialize proto cls hdl = (r1, h1)"
    by (cases "img_deserialize proto cls hdl")
  with TClass have "hdl' = h1" by (auto simp: read_next_object_def split: sum.splits)
  with keeps_surfaceD[OF d 1] show ?case by simp
qed

lemma player_deserialize_keeps: "keeps_surface (player_deserialize ops)"
proof (rule keeps_surfaceI)
  fix hdl r hdl' assume a: "player_deserialize ops hdl = (r, hdl')"
  obtain r1 h1 where 1: "read_next_i32 ops hdl = (r1, h1)" by (cases "read_next_i32 ops hdl")
  obtain r2 h2 where 2: "read_next_i32 ops h1 = (r2, h2)" by (cases "read_next_i32 ops h1")
  obtain r3 h3 where 3: "read_next_i32 ops h2 = (r3, h3)" by (cases "read_next_i32 ops h2")
  obtain r4 h4 where 4: "read_next_string ops h3 = (r4, h4)" by (cases "read_next_string ops h3")
  note k1 = keeps_surfaceD[OF read_next_i32_keeps 1]
  note k2 = keeps_surfaceD[OF read_next_i32_keeps 2]
  note k3 = keeps_surfaceD[OF read_next_i32_keeps 3]
  note k4 = keeps_surfaceD[OF read_next_string_keeps 4]
  from a 1 2 3 4 have "hdl' = h1 \<or> hdl' = h2 \<or> hdl' = h3 \<or> hdl' = h4"
    by (auto simp: player_deserialize_def split: sum.splits)
  with k1 k2 k3 k4
  show "surface hdl' = surface hdl \<and> w hdl' = w hdl \<and> h hdl' = h hdl" by auto
qed

section \<open>Lists of integers\<close>

lemma write_bytes_split:
  assumes "write_bytes ops (xs @ ys) hdl = (Inr u, hdl')"
  shows "\<exists>h1. write_bytes ops xs hdl = (Inr (), h1) \<and> write_bytes ops ys h1 = (Inr (), hdl')"
  using assms by (auto simp: write_bytes_append split: prod.splits sum.splits)

lemma str_of_hi: "str_of ''hi'' = [104, 105]"
  by (simp add: str_of_def)

lemma write_items_ints:
  "write_items ops proto (map PyInt is) hdl = write_bytes ops (concat (map i64_bytes is)) hdl"
  by (induction "is" arbitrary: hdl)
     (simp_all add: write_bytes_Nil write_bytes_append write_next_i64_bytes
        split: prod.splits sum.splits)

lemma write_next_list_ints:
  "write_next_list ops proto (map PyInt is) hdl =
     write_bytes ops (i64_bytes (int (length is)) @ concat (map i64_bytes is)) hdl"
  by (simp add: write_bytes_append write_next_i64_bytes write_items_ints
        split: prod.splits sum.splits)

lemma read_next_list_ints:
  fixes ops :: "'s ImgSurface" and proto :: "('s, 'o, 'c) ImgSerializable"
  assumes w0: "w hdl \<noteq> 0" and len: "int (length is) < I64MAX"
    and st: "stored_list ops (w hdl) (surface hdl) (next_byte hdl)
           (i64_bytes (int (length is)) @ concat (map i64_bytes is))"
  shows "read_next_list ops proto TInt hdl =
           (Inr (map (\<lambda>i. PyInt (reinterpret_i64 i)) is),
            hdl\<lparr>next_byte := next_byte hdl + 8 + 8 * int (length is)\<rparr>)"
proof -
  let ?h1 = "hdl\<lparr>next_byte := next_byte hdl + 8\<rparr>"
  let ?vs = "map PyInt is :: 'o pyval list"
  have e: "concat (map (encode (\<lambda>_. [])) ?vs) = concat (map i64_bytes is)"
    by (induction "is") simp_all
  have l: "int (length (concat (map i64_bytes is))) = 8 * int (length is)"
    by (induction "is") (simp_all add: length_i64_bytes)
  from st have
    1: "stored_list ops (w hdl) (surface hdl) (next_byte hdl) (i64_bytes (int (length is)))" and
    "stored_list ops (w ?h1) (surface ?h1) (next_byte ?h1) (concat (map i64_bytes is))"
    by (simp_all add: stored_list_append length_i64_bytes)
  then have
    2: "stored_list ops (w ?h1) (surface ?h1) (next_byte ?h1) (concat (map (encode (\<lambda>_. [])) ?vs))"
    by (simp only: e)
  have "- I64MAX - 1 \<le> int (length is)" by (simp add: I64MAX_def)
  from read_next_i64_in_range[OF w0 1 this len]
  have r: "read_next_i64 ops hdl = (Inr (int (length is)), ?h1)" .
  have w1: "w ?h1 \<noteq> 0" using w0 by simp
  have "read_items ops proto TInt (length ?vs) [] ?h1 =
          (Inr ([] @ map reread ?vs),
           ?h1\<lparr>next_byte := next_byte ?h1 + int (length (concat (map (encode (\<lambda>_. [])) ?vs)))\<rparr>)"
  proof (rule read_items_stored[OF w1 _ 2])
    fix item :: "'o pyval" and hdl' :: "'s ImgHandler"
    assume i: "item \<in> set ?vs" and w': "w hdl' \<noteq> 0"
      and s': "stored_list ops (w hdl') (surface hdl') (next_byte hdl') (encode (\<lambda>_. []) item)"
    from i obtain i' where item: "item = PyInt i'" by auto
    from s' have "stored_list ops (w hdl') (surface hdl') (next_byte hdl') (i64_bytes i')"
      by (simp add: item)
    from read_next_i64_stored[OF w' this]
    show "read_next ops proto TInt hdl' =
      (Inr (reread item), hdl'\<lparr>next_byte := next_byte hdl' + int (length (encode (\<lambda>_. []) item))\<rparr>)"
      by (simp add: item length_i64_bytes)
  qed
  then have "read_items ops proto TInt (length is) [] ?h1 =
          (Inr (map (\<lambda>i. PyInt (reinterpret_i64 i)) is),
           ?h1\<lparr>next_byte := next_byte ?h1 + 8 * int (length is)\<rparr>)"
    by (simp only: e l) (simp add: comp_def)
  with r show ?thesis by (simp add: add.assoc)
qed

section \<open>What is read back after a write\<close>

lemma roundtrip_has_type:
  fixes ops :: "'s ImgSurface"
  assumes "surface_laws ops" and "object_codec ops proto oe okc"
    and "has_type okc val T" and "w hdl \<noteq> 0"
    and "write_next ops proto val hdl = (Inr u, hdl')"
  shows "read_next ops proto T (hdl'\<lparr>next_byte := next_byte hdl\<rparr>) = (Inr val, hdl')"
  using roundtrip[OF assms(1,2) has_type_writable[OF assms(3)] assms(4,5)]
    has_type_reread[OF assms(3)] by simp

lemma list_roundtrip:
  fixes ops :: "'s ImgSurface"
  assumes laws: "surface_laws ops" and codec: "object_codec ops proto oe okc"
    and items: "list_all (\<lambda>item. writable okc item T) vs" and len: "int (length vs) < I64MAX"
    and w0: "w hdl \<noteq> 0"
    and wr: "write_next_list ops proto vs hdl = (Inr u, hdl')"
  shows "read_next_list ops proto T (hdl'\<lparr>next_byte := next_byte hdl\<rparr>) =
           (Inr (map reread vs), hdl')"
proof -
  have ty: "writable okc (PyList vs) (GenericAlias T)" using items len by simp
  have "write_next ops proto (PyList vs) hdl = (Inr u, hdl')" using wr by simp
  from roundtrip[OF laws codec ty w0 this]
  have "read_next ops proto (GenericAlias T) (hdl'\<lparr>next_byte := next_byte hdl\<rparr>) =
          (Inr (PyList (map reread vs)), hdl')" by simp
  then show ?thesis
    by (cases "read_next_list ops proto T (hdl'\<lparr>next_byte := next_byte hdl\<rparr>)")
       (auto split: sum.splits)
qed

lemma reinterpret_i64_range:
  assumes "- I64MAX - 1 \<le> val" and "val \<le> I64MAX"
  shows "reinterpret_i64 val = (if val = I64MAX then - I64MAX - 2 else val)"
proof (cases "val = I64MAX")
  case True
  have "take_bit 64 I64MAX = I64MAX"
    by (simp add: I64MAX_def take_bit_int_eq_self)
  then show ?thesis using True by (simp add: reinterpret_i64_def U64MAX_def I64MAX_def)
next
  case False
  with assms show ?thesis by (simp add: signed_i64)
qed

lemma reinterpret_i32_range:
  assumes "- I32MAX - 1 \<le> val" and "val \<le> I32MAX"
  shows "reinterpret_i32 val = (if val = I32MAX then - I32MAX - 2 else val)"
proof (cases "val = I32MAX")
  case True
  have "take_bit 32 I32MAX = I32MAX"
    by (simp add: I32MAX_def take_bit_int_eq_self)
  then show ?thesis using True by (simp add: reinterpret_i32_def U32MAX_def I32MAX_def)
next
  case False
  with assms show ?thesis by (simp add: signed_i32)
qed

lemma read_after_write_i64:
  fixes ops :: "'s ImgSurface"
  assumes laws: "surface_laws ops"
    and wr: "write_next_i64 ops val hdl = (Inr u, hdl')"
  shows "read_next_i64 ops (hdl'\<lparr>next_byte := next_byte hdl\<rparr>) =
           (Inr (reinterpret_i64 val), hdl')"
proof -
  from wr have wb: "write_bytes ops (i64_bytes val) hdl = (Inr u, hdl')"
    by (simp add: write_next_i64_bytes)
  from i64_bytes_Cons[of val] wb have w0: "w hdl \<noteq> 0" using write_bytes_width by metis
  from write_bytes_stored[OF laws i64_bytes_bytes wb] have
    n: "next_byte hdl' = next_byte hdl + 8" and
    st: "stored_list ops (w hdl) (surface hdl') (next_byte hdl) (i64_bytes val)"
    by (simp_all add: length_i64_bytes)
  from write_bytes_fields[OF wb] have f: "w hdl' = w hdl" by simp
  let ?r = "hdl'\<lparr>next_byte := next_byte hdl\<rparr>"
  have "read_next_i64 ops ?r = (Inr (reinterpret_i64 val), ?r\<lparr>next_byte := next_byte ?r + 8\<rparr>)"
    using w0 f st by (intro read_next_i64_stored) simp_all
  then show ?thesis using n by simp
qed

lemma read_after_write_i32:
  fixes ops :: "'s ImgSurface"
  assumes laws: "surface_laws ops"
    and wr: "write_next_i32 ops val hdl = (Inr u, hdl')"
  shows "read_next_i32 ops (hdl'\<lparr>next_byte := next_byte hdl\<rparr>) =
           (Inr (reinterpret_i32 val), hdl')"
proof -
  from wr have wb: "write_bytes ops (i32_bytes val) hdl = (Inr u, hdl')"
    by (simp add: write_next_i32_bytes)
  have "\<exists>b bs. i32_bytes val = b # bs"
    using length_i32_bytes[of val] by (cases "i32_bytes val") simp_all
  with wb have w0: "w hdl \<noteq> 0" using write_bytes_width by metis
  from write_bytes_stored[OF laws i32_bytes_bytes wb] have
    n: "next_byte hdl' = next_byte hdl + 4" and
    st: "stored_list ops (w hdl) (surface hdl') (next_byte hdl) (i32_bytes val)"
    by (simp_all add: length_i32_bytes)
  from write_bytes_fields[OF wb] have f: "w hdl' = w hdl" by simp
  let ?r = "hdl'\<lparr>next_byte := next_byte hdl\<rparr>"
  have "read_next_i32 ops ?r = (Inr (reinterpret_i32 val), ?r\<lparr>next_byte := next_byte ?r + 4\<rparr>)"
    using w0 f st by (intro read_next_i32_stored) simp_all
  then show ?thesis using n by simp
qed

text \<open>
  Nested values with objects: a list of players, each with attributes that read back,
  is read back as it was written.
\<close>

lemma roundtrip_players:
  fixes ops :: "'s ImgSurface"
  assumes laws: "surface_laws ops"
    and ok: "list_all (\<lambda>p. player_ok p ()) ps" and len: "int (length ps) < I64MAX"
    and w0: "w hdl \<noteq> 0"
    and wr: "write_next ops (player_proto ops) (PyList (map PyObj ps)) hdl = (Inr u, hdl')"
  shows "read_next ops (player_proto ops) (GenericAlias (TClass ()))
           (hdl'\<lparr>next_byte := next_byte hdl\<rparr>) = (Inr (PyList (map PyObj ps)), hdl')"
proof -
  have "has_type player_ok (PyList (map PyObj ps)) (GenericAlias (TClass ()))"
    using ok len by (simp add: list_all_iff)
  from roundtrip_has_type[OF laws player_codec this w0 wr] show ?thesis .
qed

section \<open>The strict surface, and where the errors of a write come from\<close>






section \<open>The claims\<close>

text \<open>
  Claim C1 (round-trip law). A value read back at the cursor it was written at is the
  value with every integer as \<open>reinterpret_i64\<close> returns it (lemma \<open>roundtrip\<close>), hence
  the value itself when no integer in it is \<open>I64MAX\<close> (lemma \<open>roundtrip_has_type\<close>). The
  law fails at the integer 9223372036854775807: written with \<^verbatim>\<open>write_next\<close> at cursor 0
  of a 2 by 2 surface and read with \<^verbatim>\<open>read_next\<close> at the declared type \<^verbatim>\<open>int\<close> from
  cursor 0, it comes back as -9223372036854775809.
\<close>

theorem i64_max_is_not_read_back:
  "(case write_next grid_ops (player_proto grid_ops) (PyInt 9223372036854775807)
          (init grid_ops (blank 2 2)) of
      (r, hdl') \<Rightarrow>
        (r, fst (read_next grid_ops (player_proto grid_ops) TInt (hdl'\<lparr>next_byte := 0\<rparr>))))
   = (Inr (), Inr (PyInt (- 9223372036854775809)))"
  by code_simp

text \<open>
  Claim C2 (signed reinterpretation and integer boundaries). The readers subtract
  \<open>2^width\<close> when the unsigned value is at least \<open>I32MAX\<close> or \<open>I64MAX\<close>, that is
  \<open>2^(width-1) - 1\<close>, which has its high bit clear. On a 2 by 2 surface the 32-bit integer
  2147483647, written at cursor 0 and read from cursor 0, comes back as -2147483649, and
  the 64-bit integer 9223372036854775807 as -9223372036854775809; the minimum
  -9223372036854775808 comes back unchanged.
\<close>

theorem maximum_reads_back_negative:
  "(case write_next_i32 grid_ops 2147483647 (init grid_ops (blank 2 2)) of
      (r, hdl) \<Rightarrow> (r, fst (read_next_i32 grid_ops (hdl\<lparr>next_byte := 0\<rparr>))))
   = (Inr (), Inr (- 2147483649))
   \<and> (case write_next_i64 grid_ops 9223372036854775807 (init grid_ops (blank 2 2)) of
      (r, hdl) \<Rightarrow> (r, fst (read_next_i64 grid_ops (hdl\<lparr>next_byte := 0\<rparr>))))
   = (Inr (), Inr (- 9223372036854775809))
   \<and> (case write_next_i64 grid_ops (- 9223372036854775808) (init grid_ops (blank 2 2)) of
      (r, hdl) \<Rightarrow> (r, fst (read_next_i64 grid_ops (hdl\<lparr>next_byte := 0\<rparr>))))
   = (Inr (), Inr (- 9223372036854775808))"
  by code_simp

text \<open>
  Claim C3 (byte-to-coordinate mapping). On a handler of positive width \<open>W\<close> with cursor
  \<open>n\<close>, \<^verbatim>\<open>read_next_byte\<close> and \<^verbatim>\<open>write_next_byte\<close> access the pixel
  \<open>x = (n div 3) mod W\<close>, \<open>y = (n div 3) div W\<close> and there the channel \<open>n mod 3\<close>, and
  nothing else of the surface; the channel is one of 0, 1, 2, the column is inside the
  row, and \<open>n = 3 * (y * W + x) + channel\<close>: three bytes to a pixel in channel order,
  the pixels row by row from left to right.
\<close>

theorem byte_to_coordinate:
  fixes hdl :: "'s ImgHandler"
  assumes "0 < w hdl"
  shows
    "(let n = next_byte hdl; W = w hdl;
          channel_index = n mod 3;
          linear_pixel = n div 3;
          x = linear_pixel mod W;
          y = linear_pixel div W
      in read_next_byte ops hdl =
           (case get_at ops (surface hdl) (x, y) of
              Inl e \<Rightarrow> (Inl e, hdl)
            | Inr color \<Rightarrow> (Inr (channel color channel_index), hdl\<lparr>next_byte := n + 1\<rparr>))
         \<and> write_next_byte ops b hdl =
           (case get_at ops (surface hdl) (x, y) of
              Inl e \<Rightarrow> (Inl e, hdl)
            | Inr color \<Rightarrow>
                (case set_at ops (surface hdl) (x, y) (set_channel color channel_index b) of
                   Inl e \<Rightarrow> (Inl e, hdl)
                 | Inr surf \<Rightarrow> (Inr (), hdl\<lparr>surface := surf, next_byte := n + 1\<rparr>)))
         \<and> 0 \<le> channel_index \<and> channel_index < 3 \<and> 0 \<le> x \<and> x < W
         \<and> n = 3 * (y * W + x) + channel_index)"
proof -
  have "next_byte hdl div 3 div w hdl * w hdl + next_byte hdl div 3 mod w hdl = next_byte hdl div 3"
    by simp
  then have "3 * (next_byte hdl div 3 div w hdl * w hdl + next_byte hdl div 3 mod w hdl)
      + next_byte hdl mod 3 = next_byte hdl"
    by (simp del: distrib_left_numeral)
  then show ?thesis
    using assms
    by (simp add: Let_def read_next_byte_def write_next_byte_def del: distrib_left_numeral)
qed

theorem byte_to_coordinate_witness:
  "0 < w (init grid_ops (blank 2 2)\<lparr>next_byte := 11\<rparr>)
   \<and> read_next_byte grid_ops (init grid_ops (blank 2 2)\<lparr>next_byte := 11\<rparr>) =
       (case get_at grid_ops (blank 2 2) (1, 1) of
          Inl e \<Rightarrow> (Inl e, init grid_ops (blank 2 2)\<lparr>next_byte := 11\<rparr>)
        | Inr color \<Rightarrow> (Inr (channel color 2), init grid_ops (blank 2 2)\<lparr>next_byte := 12\<rparr>))
   \<and> (11 :: int) = 3 * (1 * 2 + 1) + 2"
proof -
  let ?hdl = "init grid_ops (blank 2 2)\<lparr>next_byte := 11\<rparr>"
  have 1: "0 < w ?hdl" by (simp add: init_def grid_ops_def blank_def)
  have 2: "next_byte ?hdl = 11" "w ?hdl = 2" "surface ?hdl = blank 2 2"
    by (simp_all add: init_def grid_ops_def blank_def)
  have 3: "?hdl\<lparr>next_byte := 11 + 1\<rparr> = init grid_ops (blank 2 2)\<lparr>next_byte := 12\<rparr>"
    by simp
  from byte_to_coordinate [OF 1, of grid_ops 7] 1 show ?thesis
    unfolding Let_def 2 3 by (simp cong: sum.case_cong)
qed

text \<open>
  Claim C4 (capacity overflow), as the code has it. \<^verbatim>\<open>write_next_byte\<close> and
  \<^verbatim>\<open>read_next_byte\<close> check no bounds themselves: a byte operation that raises leaves the
  handler and its surface exactly as they were, and on a surface that checks bounds an
  operation whose resolved coordinate is outside raises the error of the surface's
  \<open>get_at\<close>, before any \<open>set_at\<close>. On such a surface of size W by H, a new handler writes
  exactly W * H * 3 bytes with success, and one more byte raises with nothing changed.
\<close>

theorem capacity_boundary:
  fixes ops :: "'s ImgSurface"
  assumes laws: "surface_laws ops" and bc: "bounds_checked ops"
    and W: "0 < get_width ops s" and H: "0 \<le> get_height ops s"
    and bytes: "list_all is_byte bs"
    and len: "int (length bs) = get_width ops s * get_height ops s * 3"
  shows "(\<forall>b hdl e hdl'. write_next_byte ops b hdl = (Inl e, hdl') \<longrightarrow> hdl' = hdl)
       \<and> (\<forall>hdl e hdl'. read_next_byte ops hdl = (Inl e, hdl') \<longrightarrow> hdl' = hdl)
       \<and> (\<forall>b hdl. attached ops hdl \<and> 0 < w hdl \<and>
              \<not> inside ops (surface hdl)
                  (next_byte hdl div 3 mod w hdl, next_byte hdl div 3 div w hdl) \<longrightarrow>
              (\<exists>e. get_at ops (surface hdl)
                      (next_byte hdl div 3 mod w hdl, next_byte hdl div 3 div w hdl) = Inl e
                 \<and> write_next_byte ops b hdl = (Inl e, hdl)
                 \<and> read_next_byte ops hdl = (Inl e, hdl)))
       \<and> (\<exists>hdl'. write_bytes ops bs (init ops s) = (Inr (), hdl')
              \<and> next_byte hdl' = get_width ops s * get_height ops s * 3
              \<and> (\<forall>b. \<exists>e. write_next_byte ops b hdl' = (Inl e, hdl')))"
proof (intro conjI allI impI)
  fix b e and hdl hdl' :: "'s ImgHandler" assume "write_next_byte ops b hdl = (Inl e, hdl')"
  then show "hdl' = hdl" by (rule write_next_byte_Inl)
next
  fix e and hdl hdl' :: "'s ImgHandler" assume "read_next_byte ops hdl = (Inl e, hdl')"
  then show "hdl' = hdl"
    by (auto simp: read_next_byte_def Let_def split: if_splits sum.splits)
next
  fix b and hdl :: "'s ImgHandler"
  let ?p = "(next_byte hdl div 3 mod w hdl, next_byte hdl div 3 div w hdl)"
  assume a: "attached ops hdl \<and> 0 < w hdl \<and> \<not> inside ops (surface hdl) ?p"
  then have "\<not> inside ops (surface hdl) ?p" and w0: "0 < w hdl" by simp_all
  from bounds_checked_outside[OF bc this(1)] obtain e where
    g: "get_at ops (surface hdl) ?p = Inl e" by blast
  then have "write_next_byte ops b hdl = (Inl e, hdl)" "read_next_byte ops hdl = (Inl e, hdl)"
    using w0 by (simp_all add: write_next_byte_def read_next_byte_def Let_def)
  with g show "\<exists>e. get_at ops (surface hdl) ?p = Inl e
      \<and> write_next_byte ops b hdl = (Inl e, hdl) \<and> read_next_byte ops hdl = (Inl e, hdl)"
    by blast
next
  let ?h0 = "init ops s"
  have h0: "attached ops ?h0" "w ?h0 = get_width ops s" "h ?h0 = get_height ops s"
    "next_byte ?h0 = 0" by (simp_all add: init_attached) (simp_all add: init_def)
  have "\<exists>hdl'. write_bytes ops bs ?h0 = (Inr (), hdl') \<and> attached ops hdl'"
    using h0 W len by (intro write_bytes_fits[OF laws bc _ _ _ _ bytes]) (simp_all add: ac_simps)
  then obtain hdl' where 1: "write_bytes ops bs ?h0 = (Inr (), hdl')"
    and a: "attached ops hdl'" by blast
  from write_bytes_stored[OF laws bytes 1] have
    n: "next_byte hdl' = get_width ops s * get_height ops s * 3" using h0 len by simp
  from write_bytes_fields[OF 1] have f: "w hdl' = get_width ops s" "h hdl' = get_height ops s"
    using h0 by simp_all
  have "\<exists>e. write_next_byte ops b hdl' = (Inl e, hdl')" for b
    using W f n by (intro write_next_byte_outside[OF bc a]) (simp_all add: ac_simps)
  with 1 n show "\<exists>hdl'. write_bytes ops bs ?h0 = (Inr (), hdl')
      \<and> next_byte hdl' = get_width ops s * get_height ops s * 3
      \<and> (\<forall>b. \<exists>e. write_next_byte ops b hdl' = (Inl e, hdl'))"
    by blast
qed

theorem capacity_boundary_witness:
  "surface_laws grid_ops \<and> bounds_checked grid_ops
   \<and> 0 < get_width grid_ops (blank 2 2) \<and> 0 \<le> get_height grid_ops (blank 2 2)
   \<and> list_all is_byte (replicate 12 7)
   \<and> int (length (replicate 12 (7 :: int)))
       = get_width grid_ops (blank 2 2) * get_height grid_ops (blank 2 2) * 3
   \<and> (\<exists>hdl'. write_bytes grid_ops (replicate 12 7) (init grid_ops (blank 2 2)) = (Inr (), hdl')
         \<and> next_byte hdl' = 12
         \<and> write_next_byte grid_ops 7 hdl' = (Inl IndexError, hdl'))"
proof -
  have W: "0 < get_width grid_ops (blank 2 2)" and H: "0 \<le> get_height grid_ops (blank 2 2)"
    and bytes: "list_all is_byte (replicate 12 7)"
    and len: "int (length (replicate 12 (7 :: int)))
       = get_width grid_ops (blank 2 2) * get_height grid_ops (blank 2 2) * 3"
    by (simp_all add: grid_ops_def blank_def is_byte_def list_all_iff)
  from capacity_boundary[OF grid_laws grid_bounds_checked W H bytes len]
  obtain hdl' where 1: "write_bytes grid_ops (replicate 12 7) (init grid_ops (blank 2 2)) = (Inr (), hdl')"
    and n: "next_byte hdl' = get_width grid_ops (blank 2 2) * get_height grid_ops (blank 2 2) * 3"
    and f: "\<forall>b. \<exists>e. write_next_byte grid_ops b hdl' = (Inl e, hdl')"
    by blast
  from f obtain e where 2: "write_next_byte grid_ops 7 hdl' = (Inl e, hdl')" by blast
  from write_bytes_fields[OF 1] have "w hdl' = 2" by (simp add: init_def grid_ops_def blank_def)
  with 2 have "e = IndexError"
    by (auto simp: write_next_byte_def Let_def grid_ops_def grid_get_at_def grid_set_at_def
        split: if_splits sum.splits)
  with 1 2 n have "\<exists>hdl'. write_bytes grid_ops (replicate 12 7) (init grid_ops (blank 2 2)) = (Inr (), hdl')
         \<and> next_byte hdl' = 12
         \<and> write_next_byte grid_ops 7 hdl' = (Inl IndexError, hdl')"
    by (auto simp: grid_ops_def blank_def)
  with grid_laws grid_bounds_checked W H bytes len show ?thesis by blast
qed

text \<open>
  The error is the surface's, not the module's: on a surface that does not check, the
  write at cursor 3 of a 1 by 1 surface resolves to the pixel (0, 1), outside the surface,
  succeeds and changes that pixel.
\<close>

theorem unchecked_surface_writes_outside:
  "(case write_next_byte unchecked_ops 7 (init unchecked_ops (blank 1 1)\<lparr>next_byte := 3\<rparr>) of
      (r, hdl') \<Rightarrow> (r, next_byte hdl', get_at unchecked_ops (surface hdl') (0, 1)))
   = (Inr (), 4, Inr (7, 0, 0))
   \<and> get_at unchecked_ops (blank 1 1) (0, 1) = Inr (0, 0, 0)
   \<and> \<not> inside unchecked_ops (blank 1 1) (3 div 3 mod 1, 3 div 3 div 1)
   \<and> fst (read_next_byte unchecked_ops (init unchecked_ops (blank 1 1)\<lparr>next_byte := 3\<rparr>)) = Inr 0"
  by code_simp

text \<open>
  Claim C5 (end-to-end scenario), as the code has it. On a surface of 8 by 8 pixels that
  obeys the surface laws and checks bounds, a new handler writes the 64-bit integer 42,
  the string \<open>hi\<close> and the list \<open>[1, 2, 3]\<close>, leaving the cursor at 8, at 8 + 10 and at
  8 + 10 + 32 = 50: the list takes its 8-byte length and 8 bytes for each of its three
  integers. A new handler on the written surface reads back 42, \<open>hi\<close> and \<open>[1, 2, 3]\<close>
  in this order and ends at the same cursor.
\<close>

theorem end_to_end:
  fixes ops :: "'s ImgSurface" and proto :: "('s, 'o, 'c) ImgSerializable"
  assumes laws: "surface_laws ops" and bc: "bounds_checked ops"
    and W: "get_width ops s = 8" and H: "get_height ops s = 8"
  shows "\<exists>h1 h2 h3 r1 r2.
      write_next_i64 ops 42 (init ops s) = (Inr (), h1)
    \<and> write_next_string ops (str_of ''hi'') h1 = (Inr (), h2)
    \<and> write_next_list ops proto [PyInt 1, PyInt 2, PyInt 3] h2 = (Inr (), h3)
    \<and> next_byte h1 = 8 \<and> next_byte h2 = 8 + 10 \<and> next_byte h3 = 8 + 10 + 32
    \<and> next_byte h3 = 50
    \<and> read_next_i64 ops (init ops (surface h3)) = (Inr 42, r1)
    \<and> read_next_string ops r1 = (Inr (str_of ''hi''), r2)
    \<and> read_next_list ops proto TInt r2 = (Inr [PyInt 1, PyInt 2, PyInt 3], h3)"
proof -
  let ?a = "i64_bytes 42"
  let ?b = "i64_bytes (int (length (str_of ''hi''))) @ map py_ord (str_of ''hi'')"
  let ?c = "i64_bytes (int (length [1, 2, 3 :: int])) @ concat (map i64_bytes [1, 2, 3])"
  let ?h0 = "init ops s"
  have la: "length ?a = 8" and lb: "length ?b = 10" and lc: "length ?c = 32"
    by (simp_all add: length_i64_bytes str_of_hi)
  have "is_byte (py_ord 104)" "is_byte (py_ord 105)"
    by (simp_all add: is_byte_def py_ord_def)
  then have bytes: "list_all is_byte (?a @ ?b @ ?c)"
    by (simp add: i64_bytes_bytes str_of_hi)
  have h0: "attached ops ?h0" "w ?h0 = 8" "h ?h0 = 8" "next_byte ?h0 = 0" "surface ?h0 = s"
    using W H by (simp_all add: init_attached) (simp_all add: init_def)
  have "\<exists>hdl'. write_bytes ops (?a @ ?b @ ?c) ?h0 = (Inr (), hdl') \<and> attached ops hdl'"
    using h0 la lb lc by (intro write_bytes_fits[OF laws bc _ _ _ _ bytes]) simp_all
  then obtain h3 where all: "write_bytes ops (?a @ ?b @ ?c) ?h0 = (Inr (), h3)"
    and a3: "attached ops h3" by blast
  from write_bytes_split[OF all] obtain h1 where
    1: "write_bytes ops ?a ?h0 = (Inr (), h1)" and bc': "write_bytes ops (?b @ ?c) h1 = (Inr (), h3)"
    by blast
  from write_bytes_split[OF bc'] obtain h2 where
    2: "write_bytes ops ?b h1 = (Inr (), h2)" and 3: "write_bytes ops ?c h2 = (Inr (), h3)"
    by blast
  have ba: "list_all is_byte ?a" and bb: "list_all is_byte ?b"
    using bytes by simp_all
  from write_bytes_stored[OF laws ba 1] have n1: "next_byte h1 = 8" using h0 la by simp
  from write_bytes_stored[OF laws bb 2] have n2: "next_byte h2 = 18" using n1 lb by simp
  from write_bytes_stored[OF laws bytes all] have n3: "next_byte h3 = 50"
    and st: "stored_list ops 8 (surface h3) 0 (?a @ ?b @ ?c)"
    using h0 la lb lc by simp_all
  from write_bytes_fields[OF all] have f3: "w h3 = 8" "h h3 = 8" using h0 by simp_all
  let ?r0 = "init ops (surface h3)"
  have r0: "?r0 = h3\<lparr>next_byte := 0\<rparr>"
    using a3 f3 by (simp add: init_def attached_def)
  let ?r1 = "h3\<lparr>next_byte := 8\<rparr>"
  let ?r2 = "h3\<lparr>next_byte := 18\<rparr>"
  from st have sa: "stored_list ops (w ?r0) (surface ?r0) (next_byte ?r0) ?a"
    and sb: "stored_list ops (w ?r1) (surface ?r1) (next_byte ?r1) ?b"
    and sc: "stored_list ops (w ?r2) (surface ?r2) (next_byte ?r2) ?c"
    unfolding r0 using f3 by (simp_all add: stored_list_append stored_list_Cons stored_list_Nil length_i64_bytes str_of_hi)
  have ra: "read_next_i64 ops ?r0 = (Inr 42, ?r1)"
    using read_next_i64_in_range[OF _ sa, unfolded r0] f3 by (simp add: r0 I64MAX_def)
  have "list_all (\<lambda>char. char < 1114112) (str_of ''hi'')" by (simp add: str_of_hi)
  from read_next_string_stored[OF _ sb this] f3
  have rb: "read_next_string ops ?r1 = (Inr (str_of ''hi''), ?r2)"
    by (simp add: str_of_hi I64MAX_def)
  have "read_next_list ops proto TInt ?r2 =
      (Inr (map (\<lambda>i. PyInt (reinterpret_i64 i)) [1, 2, 3]),
       ?r2\<lparr>next_byte := next_byte ?r2 + 8 + 8 * int (length [1, 2, 3 :: int])\<rparr>)"
    using f3 by (intro read_next_list_ints[OF _ _ sc]) (simp_all add: I64MAX_def)
  moreover have "reinterpret_i64 1 = 1" "reinterpret_i64 2 = 2" "reinterpret_i64 3 = 3"
    by (simp_all add: signed_i64 I64MAX_def)
  ultimately have rc: "read_next_list ops proto TInt ?r2 = (Inr [PyInt 1, PyInt 2, PyInt 3], h3)"
    using n3 by simp
  have w1: "write_next_i64 ops 42 ?h0 = (Inr (), h1)"
    using 1 by (simp add: write_next_i64_bytes)
  have w2: "write_next_string ops (str_of ''hi'') h1 = (Inr (), h2)"
    using 2 by (simp add: write_next_string_bytes)
  have "write_next_list ops proto (map PyInt [1, 2, 3]) h2 = (Inr (), h3)"
    using 3 by (simp only: write_next_list_ints)
  then have w3: "write_next_list ops proto [PyInt 1, PyInt 2, PyInt 3] h2 = (Inr (), h3)"
    by simp
  from w1 w2 w3 n1 n2 n3 ra rb rc show ?thesis by (intro exI conjI) simp_all
qed

theorem end_to_end_witness:
  "surface_laws grid_ops \<and> bounds_checked grid_ops
   \<and> get_width grid_ops (blank 8 8) = 8 \<and> get_height grid_ops (blank 8 8) = 8
   \<and> (\<exists>h1 h2 h3 r1 r2.
      write_next_i64 grid_ops 42 (init grid_ops (blank 8 8)) = (Inr (), h1)
    \<and> write_next_string grid_ops (str_of ''hi'') h1 = (Inr (), h2)
    \<and> write_next_list grid_ops (player_proto grid_ops) [PyInt 1, PyInt 2, PyInt 3] h2 = (Inr (), h3)
    \<and> next_byte h1 = 8 \<and> next_byte h2 = 8 + 10 \<and> next_byte h3 = 8 + 10 + 32
    \<and> next_byte h3 = 50
    \<and> read_next_i64 grid_ops (init grid_ops (surface h3)) = (Inr 42, r1)
    \<and> read_next_string grid_ops r1 = (Inr (str_of ''hi''), r2)
    \<and> read_next_list grid_ops (player_proto grid_ops) TInt r2
          = (Inr [PyInt 1, PyInt 2, PyInt 3], h3))"
proof -
  have W: "get_width grid_ops (blank 8 8) = 8" and H: "get_height grid_ops (blank 8 8) = 8"
    by (simp_all add: grid_ops_def blank_def)
  note e = end_to_end[OF grid_laws grid_bounds_checked W H, where proto = "player_proto grid_ops"]
  show ?thesis
    by (intro conjI grid_laws grid_bounds_checked W H e)
qed

text \<open>
  The claim's count of 8 + 10 + 27 = 45 bytes is not what the three writes consume: on
  the 8 by 8 grid the cursor ends at 50.
\<close>

theorem scenario_consumes_fifty_bytes:
  "(case write_next_i64 grid_ops 42 (init grid_ops (blank 8 8)) of (r1, h1) \<Rightarrow>
    case write_next_string grid_ops (str_of ''hi'') h1 of (r2, h2) \<Rightarrow>
    case write_next_list grid_ops (player_proto grid_ops) [PyInt 1, PyInt 2, PyInt 3] h2 of
      (r3, h3) \<Rightarrow> (r1, r2, r3, next_byte h3, next_byte h3 = 8 + 10 + 27))
   = (Inr (), Inr (), Inr (), 50, False)"
  by code_simp

text \<open>
  Claim C6 (pixel isolation). On a surface that obeys the surface laws, a successful
  \<^verbatim>\<open>write_next_byte\<close> of a byte \<open>b\<close> advances the cursor by exactly 1, leaves the cached
  dimensions alone, makes \<open>b\<close> the resolved channel of the resolved pixel, leaves the
  other two channels of that pixel as they were, and leaves every other pixel as it was.
  In particular, when the cursor was on channel 0 and a second byte \<open>b'\<close> is written
  next, the pixel holds \<open>b\<close>, \<open>b'\<close> and, in channel 2, what it held before.
\<close>

theorem pixel_isolation:
  fixes hdl :: "'s ImgHandler"
  assumes "surface_laws ops" and "is_byte b"
    and "write_next_byte ops b hdl = (Inr u, hdl')"
  shows
    "(let b_pos = next_byte hdl mod 3;
          p = (next_byte hdl div 3 mod w hdl, next_byte hdl div 3 div w hdl)
      in next_byte hdl' = next_byte hdl + 1 \<and> w hdl' = w hdl \<and> h hdl' = h hdl
         \<and> (\<exists>color color'.
               get_at ops (surface hdl) p = Inr color \<and> get_at ops (surface hdl') p = Inr color'
               \<and> channel color' b_pos = b
               \<and> (\<forall>j. 0 \<le> j \<and> j < 3 \<and> j \<noteq> b_pos \<longrightarrow> channel color' j = channel color j))
         \<and> (\<forall>q. q \<noteq> p \<longrightarrow> get_at ops (surface hdl') q = get_at ops (surface hdl) q)
         \<and> (\<forall>b' u' hdl''.
               b_pos = 0 \<and> is_byte b' \<and> write_next_byte ops b' hdl' = (Inr u', hdl'') \<longrightarrow>
               (\<exists>c0 c1 c2. get_at ops (surface hdl) p = Inr (c0, c1, c2)
                   \<and> get_at ops (surface hdl'') p = Inr (b, b', c2))))"
proof -
  let ?b_pos = "next_byte hdl mod 3"
  let ?p = "(next_byte hdl div 3 mod w hdl, next_byte hdl div 3 div w hdl)"
  from write_next_byte_Inr[OF assms(3)] obtain color surf where
    g: "get_at ops (surface hdl) ?p = Inr color" and
    s: "set_at ops (surface hdl) ?p (set_channel color ?b_pos b) = Inr surf" and
    h': "hdl' = hdl\<lparr>surface := surf, next_byte := next_byte hdl + 1\<rparr>"
    by blast
  have bp: "byte_pxl (set_channel color ?b_pos b)"
    using surface_laws_get[OF assms(1) g] assms(2) by (rule byte_pxl_set_channel)
  note g' = surface_laws_set(1)[OF assms(1) bp s]
  note fr = surface_laws_set(2)[OF assms(1) bp s]
  have range: "0 \<le> ?b_pos" "?b_pos < 3" by simp_all
  have 1: "next_byte hdl' = next_byte hdl + 1 \<and> w hdl' = w hdl \<and> h hdl' = h hdl"
    using h' by simp
  have 2: "\<exists>color color'.
      get_at ops (surface hdl) ?p = Inr color \<and> get_at ops (surface hdl') ?p = Inr color'
      \<and> channel color' ?b_pos = b
      \<and> (\<forall>j. 0 \<le> j \<and> j < 3 \<and> j \<noteq> ?b_pos \<longrightarrow> channel color' j = channel color j)"
  proof (intro exI conjI allI impI)
    show "get_at ops (surface hdl) ?p = Inr color" by (rule g)
    show "get_at ops (surface hdl') ?p = Inr (set_channel color ?b_pos b)"
      using g' h' by simp
    show "channel (set_channel color ?b_pos b) ?b_pos = b"
      using range by (rule channel_set_channel_same)
    fix j assume "0 \<le> j \<and> j < 3 \<and> j \<noteq> ?b_pos"
    then show "channel (set_channel color ?b_pos b) j = channel color j"
      using range by (intro channel_set_channel_other) auto
  qed
  have 3: "\<forall>q. q \<noteq> ?p \<longrightarrow> get_at ops (surface hdl') q = get_at ops (surface hdl) q"
    using fr h' by simp
  have 4: "\<forall>b' u' hdl''.
      ?b_pos = 0 \<and> is_byte b' \<and> write_next_byte ops b' hdl' = (Inr u', hdl'') \<longrightarrow>
      (\<exists>c0 c1 c2. get_at ops (surface hdl) ?p = Inr (c0, c1, c2)
          \<and> get_at ops (surface hdl'') ?p = Inr (b, b', c2))"
  proof (intro allI impI)
    fix b' u' hdl''
    assume a: "?b_pos = 0 \<and> is_byte b' \<and> write_next_byte ops b' hdl' = (Inr u', hdl'')"
    then have z: "?b_pos = 0" and b': "is_byte b'"
      and w2: "write_next_byte ops b' hdl' = (Inr u', hdl'')" by simp_all
    obtain c0 c1 c2 where c: "color = (c0, c1, c2)" by (cases color)
    from z have d: "(next_byte hdl + 1) div 3 = next_byte hdl div 3"
      and m: "(next_byte hdl + 1) mod 3 = 1" by presburger+
    have p': "(next_byte hdl' div 3 mod w hdl', next_byte hdl' div 3 div w hdl') = ?p"
      using h' d by simp
    from write_next_byte_Inr[OF w2] obtain color2 surf2 where
      g2: "get_at ops (surface hdl') ?p = Inr color2" and
      s2: "set_at ops (surface hdl') ?p (set_channel color2 (next_byte hdl' mod 3) b') = Inr surf2" and
      h'': "hdl'' = hdl'\<lparr>surface := surf2, next_byte := next_byte hdl' + 1\<rparr>"
      unfolding p' by blast
    from g2 g' h' have c2: "color2 = set_channel color ?b_pos b" by simp
    have bp2: "byte_pxl (set_channel color2 (next_byte hdl' mod 3) b')"
      using surface_laws_get[OF assms(1) g2] b' by (rule byte_pxl_set_channel)
    from surface_laws_set(1)[OF assms(1) bp2 s2]
    have "get_at ops (surface hdl'') ?p = Inr (set_channel color2 (next_byte hdl' mod 3) b')"
      using h'' by simp
    also have "set_channel color2 (next_byte hdl' mod 3) b' = (b, b', c2)"
      using c2 c z m h' by simp
    finally show "\<exists>c0 c1 c2. get_at ops (surface hdl) ?p = Inr (c0, c1, c2)
          \<and> get_at ops (surface hdl'') ?p = Inr (b, b', c2)"
      using g c by blast
  qed
  show ?thesis unfolding Let_def using 1 2 3 4 by blast
qed

theorem pixel_isolation_witness:
  "surface_laws grid_ops \<and> is_byte 7 \<and>
   (\<exists>h0 h1 h2.
      write_next_byte grid_ops 9 (init grid_ops (blank 2 2)\<lparr>next_byte := 2\<rparr>) = (Inr (), h0)
      \<and> write_next_byte grid_ops 7 (h0\<lparr>next_byte := 0\<rparr>) = (Inr (), h1)
      \<and> write_next_byte grid_ops 8 h1 = (Inr (), h2)
      \<and> next_byte h1 = 1
      \<and> get_at grid_ops (surface h2) (0, 0) = Inr (7, 8, 9)
      \<and> get_at grid_ops (surface h1) (1, 0) = get_at grid_ops (surface h0) (1, 0))"
proof -
  let ?H = "init grid_ops (blank 2 2)\<lparr>next_byte := 2\<rparr>"
  have "\<exists>h0. write_next_byte grid_ops 9 ?H = (Inr (), h0)
      \<and> get_at grid_ops (surface h0) (0, 0) = Inr (0, 0, 9) \<and> w h0 = 2 \<and> h h0 = 2
      \<and> attached grid_ops h0"
    by (simp add: write_next_byte_def init_def grid_ops_def blank_def grid_get_at_def
        grid_set_at_def in_grid_def attached_def Let_def)
  then obtain h0 where 0: "write_next_byte grid_ops 9 ?H = (Inr (), h0)"
    and g0: "get_at grid_ops (surface h0) (0, 0) = Inr (0, 0, 9)"
    and f0: "w h0 = 2" "h h0 = 2" and a0: "attached grid_ops h0" by blast
  let ?h = "h0\<lparr>next_byte := 0\<rparr>"
  have a: "attached grid_ops ?h" using a0 by (simp add: attached_def)
  have b7: "is_byte 7" and b8: "is_byte 8" by (simp_all add: is_byte_def)
  from write_next_byte_inside[OF grid_laws grid_bounds_checked a _ _ _ b7] f0
  obtain h1 where 1: "write_next_byte grid_ops 7 ?h = (Inr (), h1)"
    and a1: "attached grid_ops h1" by auto
  note iso = pixel_isolation[OF grid_laws b7 1, unfolded Let_def]
  from iso have n1: "next_byte h1 = 1" and f1: "w h1 = 2" "h h1 = 2" using f0 by simp_all
  from write_next_byte_inside[OF grid_laws grid_bounds_checked a1 _ _ _ b8] n1 f1
  obtain h2 where 2: "write_next_byte grid_ops 8 h1 = (Inr (), h2)" by auto
  from iso 2 b8 have "\<exists>c0 c1 c2. get_at grid_ops (surface ?h) (0, 0) = Inr (c0, c1, c2)
      \<and> get_at grid_ops (surface h2) (0, 0) = Inr (7, 8, c2)"
    using f0 by simp
  with g0 have g2: "get_at grid_ops (surface h2) (0, 0) = Inr (7, 8, 9)" by simp
  from iso have "get_at grid_ops (surface h1) (1, 0) = get_at grid_ops (surface h0) (1, 0)"
    using f0 by simp
  with grid_laws b7 0 1 2 n1 g2 show ?thesis by blast
qed




text \<open>
  Claim C8 (list ordering). \<^verbatim>\<open>read_next_list\<close> after \<^verbatim>\<open>write_next_list\<close> returns as many
  elements as were written, each at its position, as \<open>reread\<close> returns it (lemma
  \<open>list_roundtrip\<close>). The list returned is not the list written when an element is the
  integer 9223372036854775807: \<open>[9223372036854775807, 1, 2]\<close>, written at cursor 0 of a 4
  by 4 surface and read at the element type \<^verbatim>\<open>int\<close> from cursor 0, comes back as
  \<open>[-9223372036854775809, 1, 2]\<close>.
\<close>

theorem list_holding_i64_max:
  "(case write_next_list grid_ops (player_proto grid_ops)
          [PyInt 9223372036854775807, PyInt 1, PyInt 2] (init grid_ops (blank 4 4)) of
      (r, hdl') \<Rightarrow>
        (r, fst (read_next_list grid_ops (player_proto grid_ops) TInt (hdl'\<lparr>next_byte := 0\<rparr>))))
   = (Inr (), Inr [PyInt (- 9223372036854775809), PyInt 1, PyInt 2])"
  by code_simp

text \<open>
  Claim C9 (generic dispatch). \<^verbatim>\<open>write_next\<close> writes an integer with
  \<^verbatim>\<open>write_next_i64\<close>, that is as its 8 big-endian bytes and never as 4, a string with
  \<^verbatim>\<open>write_next_string\<close>, a list with \<^verbatim>\<open>write_next_list\<close> and any other value with the
  value's own \<^verbatim>\<open>img_serialize\<close>. \<^verbatim>\<open>read_next\<close> reads the declared type \<^verbatim>\<open>int\<close> with
  \<^verbatim>\<open>read_next_i64\<close>, \<^verbatim>\<open>str\<close> with \<^verbatim>\<open>read_next_string\<close>, a parameterized type with
  \<^verbatim>\<open>read_next_list\<close> at its first argument, and any other type with the type's
  \<^verbatim>\<open>img_deserialize\<close>.
\<close>

theorem generic_dispatch:
  fixes ops :: "'s ImgSurface" and proto :: "('s, 'o, 'c) ImgSerializable"
  shows
    "write_next ops proto (PyInt i) hdl = write_next_i64 ops i hdl
     \<and> write_next ops proto (PyInt i) hdl = write_bytes ops (i64_bytes i) hdl
     \<and> length (i64_bytes i) = 8
     \<and> write_next ops proto (PyStr s) hdl = write_next_string ops s hdl
     \<and> write_next ops proto (PyList vs) hdl = write_next_list ops proto vs hdl
     \<and> write_next ops proto (PyObj ob) hdl = img_serialize proto ob hdl
     \<and> read_next ops proto TInt hdl =
          (case read_next_i64 ops hdl of
             (Inl e, hdl') \<Rightarrow> (Inl e, hdl')
           | (Inr val, hdl') \<Rightarrow> (Inr (PyInt val), hdl'))
     \<and> read_next ops proto TStr hdl =
          (case read_next_string ops hdl of
             (Inl e, hdl') \<Rightarrow> (Inl e, hdl')
           | (Inr val, hdl') \<Rightarrow> (Inr (PyStr val), hdl'))
     \<and> read_next ops proto (GenericAlias E) hdl =
          (case read_next_list ops proto E hdl of
             (Inl e, hdl') \<Rightarrow> (Inl e, hdl')
           | (Inr val, hdl') \<Rightarrow> (Inr (PyList val), hdl'))
     \<and> read_next ops proto (TClass cls) hdl =
          (case img_deserialize proto cls hdl of
             (Inl e, hdl') \<Rightarrow> (Inl e, hdl')
           | (Inr val, hdl') \<Rightarrow> (Inr (PyObj val), hdl'))"
  by (simp add: write_next_i64_bytes length_i64_bytes write_next_object_def read_next_object_def)

text \<open>
  Claim C10 (reads never mutate the surface). Whatever their outcome, \<^verbatim>\<open>read_next_byte\<close>,
  the loop over \<^verbatim>\<open>read_next_bytes\<close>, \<^verbatim>\<open>read_next_i32\<close>, \<^verbatim>\<open>read_next_i64\<close> and
  \<^verbatim>\<open>read_next_string\<close> leave the surface, hence every pixel, and the cached dimensions
  as they were: the cursor is all they change. So do \<^verbatim>\<open>read_next_list\<close> and
  \<^verbatim>\<open>read_next\<close>, provided the \<^verbatim>\<open>img_deserialize\<close> routines of the classes, which are
  the user's code, do.
\<close>

theorem reads_keep_the_surface:
  fixes ops :: "'s ImgSurface" and proto :: "('s, 'o, 'c) ImgSerializable"
  shows "keeps_surface (read_next_byte ops)
       \<and> keeps_surface (read_next_bytes ops n body acc)
       \<and> keeps_surface (read_next_i32 ops)
       \<and> keeps_surface (read_next_i64 ops)
       \<and> keeps_surface (read_next_string ops)
       \<and> ((\<forall>cls. keeps_surface (img_deserialize proto cls)) \<longrightarrow>
            keeps_surface (read_next_list ops proto T) \<and> keeps_surface (read_next ops proto T))"
proof (intro conjI impI)
  assume d: "\<forall>cls. keeps_surface (img_deserialize proto cls)"
  then have d': "\<And>cls. keeps_surface (img_deserialize proto cls)" by blast
  show "keeps_surface (read_next ops proto T)"
    by (rule keeps_surfaceI) (rule read_next_keeps_aux[OF d'])
  show "keeps_surface (read_next_list ops proto T)"
    by (rule keeps_surfaceI) (rule read_next_list_keeps_aux[OF read_next_keeps_aux[OF d']])
qed (rule read_next_byte_keeps read_next_bytes_keeps read_next_i32_keeps read_next_i64_keeps
      read_next_string_keeps)+

theorem reads_keep_the_surface_witness:
  "(\<forall>cls. keeps_surface (img_deserialize (player_proto grid_ops) cls))
   \<and> (\<exists>r hdl'. read_next_list grid_ops (player_proto grid_ops) (TClass ())
                  (init grid_ops (blank 2 2)) = (r, hdl')
         \<and> r = Inr [] \<and> next_byte hdl' = 8 \<and> surface hdl' = blank 2 2)"
proof -
  let ?proto = "player_proto grid_ops"
  let ?hdl = "init grid_ops (blank 2 2)"
  have d: "\<forall>cls. keeps_surface (img_deserialize ?proto cls)"
    by (simp add: player_proto_def player_deserialize_keeps)
  obtain r hdl' where 1: "read_next_list grid_ops ?proto (TClass ()) ?hdl = (r, hdl')"
    by (cases "read_next_list grid_ops ?proto (TClass ()) ?hdl")
  have "fst (read_next_list grid_ops ?proto (TClass ()) ?hdl) = Inr []"
    by code_simp
  moreover have "next_byte (snd (read_next_list grid_ops ?proto (TClass ()) ?hdl)) = 8"
    by code_simp
  ultimately have 2: "r = Inr []" "next_byte hdl' = 8" using 1 by simp_all
  from reads_keep_the_surface[where ops = grid_ops and proto = ?proto and T = "TClass ()"
      and n = 0 and body = "\<lambda>a b. Inr a" and acc = "0 :: int"] d
  have "keeps_surface (read_next_list grid_ops ?proto (TClass ()))" by simp
  from keeps_surfaceD[OF this 1] have "surface hdl' = blank 2 2" by (simp add: init_def)
  with d 1 2 show ?thesis by blast
qed

end
